theory Spec2Isabelle
  imports Complex_Main "HOL-Library.Sublist" "HOL-Library.Multiset"
begin

section \<open>Python text\<close>

text \<open>
  A Python \<open>str\<close> is a sequence of Unicode code points and \<open>len\<close> counts code
  points, so text is a list of code points. \<open>py\<close> writes an ASCII literal.
\<close>

type_synonym pychar = nat
type_synonym pystr = "pychar list"

definition py :: "string \<Rightarrow> pystr" where
  "py s = map of_char s"

subsection \<open>Character classes and basic string operations\<close>

definition isspace :: "pychar \<Rightarrow> bool" where
  "isspace c \<longleftrightarrow> (9 \<le> c \<and> c \<le> 13) \<or> (28 \<le> c \<and> c \<le> 32) \<or> c = 133 \<or> c = 160
     \<or> c = 5760 \<or> (8192 \<le> c \<and> c \<le> 8202) \<or> c = 8232 \<or> c = 8233 \<or> c = 8239
     \<or> c = 8287 \<or> c = 12288"

definition lstrip :: "pystr \<Rightarrow> pystr" where
  "lstrip s = dropWhile isspace s"

definition rstrip :: "pystr \<Rightarrow> pystr" where
  "rstrip s = rev (dropWhile isspace (rev s))"

definition strip :: "pystr \<Rightarrow> pystr" where
  "strip s = rstrip (lstrip s)"


definition join :: "'a list \<Rightarrow> 'a list list \<Rightarrow> 'a list" where
  "join sep xs = (case xs of [] \<Rightarrow> [] | y # ys \<Rightarrow> y @ concat (map (\<lambda>z. sep @ z) ys))"







text \<open>The number that a text of decimal digits denotes.\<close>

definition decval :: "pystr \<Rightarrow> nat" where
  "decval s = foldl (\<lambda>a c. 10 * a + (c - 48)) 0 s"

subsection \<open>\<open>_sanitize_name\<close>\<close>




subsection \<open>Replacement and case\<close>

text \<open>\<open>s.replace(old, new)\<close> for a non-empty \<open>old\<close>: leftmost occurrences, not overlapping.\<close>

fun replace :: "pystr \<Rightarrow> pystr \<Rightarrow> pystr \<Rightarrow> pystr" where
  "replace old new [] = []"
| "replace old new (c # cs) =
     (if old \<noteq> [] \<and> prefix old (c # cs)
      then new @ replace old new (drop (length old) (c # cs))
      else c # replace old new cs)"

text \<open>
  \<open>str.lower()\<close> on the code points up to U+00FF. Above that range \<open>lower\<close> leaves a code
  point as it is; Python does not, but no code point above U+00FF lowers to a letter of
  the ASCII words that the source compares lowered text with (\<open>completed.\<close>,
  \<open>end of report\<close>, \<open>true\<close>, \<open>yes\<close>), so those comparisons come out the same.
\<close>

definition lower_char :: "pychar \<Rightarrow> pychar" where
  "lower_char c =
     (if (65 \<le> c \<and> c \<le> 90) \<or> (192 \<le> c \<and> c \<le> 214) \<or> (216 \<le> c \<and> c \<le> 222) then c + 32 else c)"

definition lower :: "pystr \<Rightarrow> pystr" where
  "lower s = map lower_char s"

section \<open>Bounded concurrency fan-out (PromptOrchestratorAgent.py)\<close>

subsection \<open>Units of work and \<open>asyncio.gather\<close>\<close>

text \<open>
  An exception raised by a unit is an instance of a subclass of \<open>Exception\<close>
  (\<open>ADKLLM\<close> raises \<open>TimeoutError\<close> and \<open>RuntimeError\<close>, the chain raises
  \<open>ValueError\<close> and \<open>RuntimeError\<close>); it carries its class name and its message.
  Awaiting a coroutine either raises (\<open>Inl\<close>) or returns a value (\<open>Inr\<close>).
\<close>

datatype exc = Exc (exc_type: pystr) (exc_msg: pystr)

text \<open>
  \<open>asyncio.gather(*tasks, return_exceptions=False)\<close>: the tasks finish in an order
  chosen by the event loop (\<open>sched\<close>, the indices of the tasks in completion order).
  The first task that raises makes \<open>gather\<close> raise at once, before the tasks scheduled
  later have finished; when no task raises, \<open>gather\<close> returns, after the last task has
  finished, the list of results in the order the tasks were passed. The first component
  of the result is the log of the tasks that had finished when \<open>gather\<close> came back.
\<close>

fun gather_wait :: "('e + 'r) list \<Rightarrow> nat list \<Rightarrow> nat list \<Rightarrow> nat list \<times> 'e option" where
  "gather_wait tasks [] fin = (fin, None)"
| "gather_wait tasks (k # sched) fin =
     (case tasks ! k of
        Inl e \<Rightarrow> (fin @ [k], Some e)
      | Inr r \<Rightarrow> gather_wait tasks sched (fin @ [k]))"

definition gather :: "('e + 'r) list \<Rightarrow> nat list \<Rightarrow> nat list \<times> ('e + 'r list)" where
  "gather tasks sched =
     (case gather_wait tasks sched [] of
        (fin, Some e) \<Rightarrow> (fin, Inl e)
      | (fin, None) \<Rightarrow> (fin, Inr (map projr tasks)))"

subsection \<open>\<open>invoke_many\<close>: ordered fail-fast\<close>

text \<open>
  \<open>run_one(idx, prompt)\<close> of \<open>invoke_many\<close>: \<open>try: return idx, await self.invoke(...)\<close>,
  \<open>except Exception as e: return idx, e\<close>. The coroutine itself never raises: value and
  exception share the second slot of the pair. The semaphore does not change the value
  (it is the subject of the admission model below).
\<close>

definition run_one :: "('p \<Rightarrow> exc + 'a) \<Rightarrow> nat \<Rightarrow> 'p \<Rightarrow> exc + (nat \<times> (exc + 'a))" where
  "run_one invoke idx prompt =
     (case invoke prompt of
        Inr v \<Rightarrow> Inr (idx, Inr v)
      | Inl e \<Rightarrow> Inr (idx, Inl e))"

text \<open>
  The loop \<open>for _, r in results\<close>: \<open>out\<close> collects every \<open>r\<close>, \<open>first_exc\<close> keeps the
  first \<open>r\<close> that is an exception.
\<close>

fun propagate :: "(nat \<times> (exc + 'a)) list \<Rightarrow> (exc + 'a) list \<Rightarrow> exc option
    \<Rightarrow> (exc + 'a) list \<times> exc option" where
  "propagate [] out first_exc = (out, first_exc)"
| "propagate ((i, r) # results) out first_exc =
     propagate results (out @ [r])
       (case r of
          Inl e \<Rightarrow> (if first_exc = None then Some e else first_exc)
        | Inr v \<Rightarrow> first_exc)"

text \<open>
  \<open>invoke_many(prompts, model, parser, concurrency)\<close>. \<open>invoke\<close> is the outcome of
  \<open>self.invoke(prompt, model, parser)\<close> for each prompt. The result is the log of the
  units that had finished when the call came back, and what the caller receives:
  \<open>Inl e\<close> for \<open>raise first_exc\<close>, \<open>Inr out\<close> for \<open>return out\<close>.
\<close>

definition invoke_many :: "('p \<Rightarrow> exc + 'a) \<Rightarrow> nat list \<Rightarrow> 'p list
    \<Rightarrow> nat list \<times> (exc + (exc + 'a) list)" where
  "invoke_many invoke sched prompts =
     (let tasks = map (\<lambda>(i, p). run_one invoke i p) (enumerate 0 prompts) in
      case gather tasks sched of
        (fin, Inl e) \<Rightarrow> (fin, Inl e)
      | (fin, Inr results) \<Rightarrow>
          (let results = sort_key fst results;
               (out, first_exc) = propagate results [] None
           in case first_exc of
                Some e \<Rightarrow> (fin, Inl e)
              | None \<Rightarrow> (fin, Inr out)))"

subsection \<open>\<open>invoke_one_agent\<close> and \<open>invoke_many_agent\<close>: aggregate-partial\<close>














subsection \<open>Example child classes\<close>




subsection \<open>The admission limiter of \<open>invoke_many\<close> and \<open>invoke_many_agent\<close>\<close>

text \<open>
  Both functions resolve the limit and build the limiter in the same way:
  \<open>if concurrency is None: concurrency = self.concurrency\<close>, then
  \<open>sem = asyncio.Semaphore(concurrency) if concurrency and concurrency > 0 else None\<close>.
  (The parameter's default is \<open>0\<close> in \<open>invoke_many\<close> and \<open>None\<close> in
  \<open>invoke_many_agent\<close>.)
\<close>

definition admission_limit :: "int option \<Rightarrow> int \<Rightarrow> int" where
  "admission_limit concurrency self_concurrency =
     (case concurrency of None \<Rightarrow> self_concurrency | Some c \<Rightarrow> c)"

definition make_semaphore :: "int option \<Rightarrow> int \<Rightarrow> nat option" where
  "make_semaphore concurrency self_concurrency =
     (let c = admission_limit concurrency self_concurrency
      in if c \<noteq> 0 \<and> c > 0 then Some (nat c) else None)"

text \<open>
  Each unit runs \<open>if sem: async with sem: return await work\<close>, else \<open>return await work\<close>.
  A unit is waiting to enter its work, inside it, or past it. \<open>permits\<close> is the
  semaphore's counter (\<open>None\<close> when there is no semaphore).
\<close>

datatype phase = Pending | Working | Finished

record fan_state =
  permits :: "nat option"
  phases :: "phase list"

definition start :: "nat option \<Rightarrow> nat \<Rightarrow> fan_state" where
  "start sem K = \<lparr>permits = sem, phases = replicate K Pending\<rparr>"

text \<open>
  The two things the event loop can let a unit do. \<open>Enter i\<close>: unit \<open>i\<close> starts its
  work; with a semaphore this is \<open>acquire\<close>, which takes a permit and is not possible
  while the counter is 0 (the unit stays suspended). \<open>Leave i\<close>: the work of unit \<open>i\<close>
  ends, by a return or by an exception; \<open>async with\<close> releases the permit on both.
  \<open>None\<close> says that the event cannot happen in that state.
\<close>

datatype event = Enter nat | Leave nat

fun fire :: "event \<Rightarrow> fan_state \<Rightarrow> fan_state option" where
  "fire (Enter i) s =
     (if i < length (phases s) \<and> phases s ! i = Pending then
        (case permits s of
           None \<Rightarrow> Some (s\<lparr>phases := (phases s)[i := Working]\<rparr>)
         | Some 0 \<Rightarrow> None
         | Some (Suc n) \<Rightarrow> Some \<lparr>permits = Some n, phases = (phases s)[i := Working]\<rparr>)
      else None)"
| "fire (Leave i) s =
     (if i < length (phases s) \<and> phases s ! i = Working then
        Some \<lparr>permits = map_option Suc (permits s), phases = (phases s)[i := Finished]\<rparr>
      else None)"

fun run_events :: "event list \<Rightarrow> fan_state \<Rightarrow> fan_state option" where
  "run_events [] s = Some s"
| "run_events (e # es) s = (case fire e s of None \<Rightarrow> None | Some s' \<Rightarrow> run_events es s')"

definition in_flight :: "fan_state \<Rightarrow> nat" where
  "in_flight s = length (filter (\<lambda>p. p = Working) (phases s))"

section \<open>Completion continuation controller (StructuredOutputChain.py)\<close>

subsection \<open>Completeness test\<close>

text \<open>
  \<open>completion_expected_end_token\<close>: \<open>None\<close>, one string, or a tuple of strings.
  Without a token the test is the heuristic list of closing characters
  \<open>. ; ! ? ` } \n | - * " ' > ]\<close>, U+201D, \<open>/\<close> and U+3011.
\<close>

datatype end_token = NoToken | Token pystr | Tokens "pystr list"

definition heuristic_endings :: "pystr list" where
  "heuristic_endings =
     map (\<lambda>c. [c]) [46, 59, 33, 63, 96, 125, 10, 124, 45, 42, 34, 39, 62, 93, 8221, 47, 12305]"

definition is_complete :: "end_token \<Rightarrow> pystr \<Rightarrow> bool" where
  "is_complete tok text =
     (let s = strip text in
      if s = [] then False
      else case tok of
             NoToken \<Rightarrow> list_ex (\<lambda>t. suffix t s) heuristic_endings
           | Tokens toks \<Rightarrow> list_ex (\<lambda>t. suffix t s) toks
           | Token t \<Rightarrow> suffix t s)"

subsection \<open>Collapsing padding runs\<close>

text \<open>
  \<open>re.search(c{n}, s)\<close> for one character \<open>c\<close>: the start of the leftmost place where
  \<open>n\<close> copies of \<open>c\<close> stand.
\<close>

fun search_run :: "pychar \<Rightarrow> nat \<Rightarrow> pystr \<Rightarrow> nat option" where
  "search_run c n [] = (if n = 0 then Some 0 else None)"
| "search_run c n (x # xs) =
     (if take n (x # xs) = replicate n c then Some 0
      else map_option Suc (search_run c n xs))"

text \<open>
  One step of the \<open>while True\<close> loop: a run of 101 or more \<open>c\<close> starting at \<open>i\<close> and
  ending before \<open>j\<close> (the first other character, or the end) becomes 100 copies of \<open>c\<close>.
\<close>

definition cut_run :: "pychar \<Rightarrow> nat \<Rightarrow> pystr \<Rightarrow> pystr" where
  "cut_run c i s =
     (let j = i + length (takeWhile (\<lambda>x. x = c) (drop i s))
      in take i s @ replicate 100 c @ drop j s)"

function collapse_runs :: "pystr \<Rightarrow> pystr" where
  "collapse_runs s =
     (case search_run 45 101 s of
        Some i \<Rightarrow> collapse_runs (cut_run 45 i s)
      | None \<Rightarrow>
          (case search_run 32 101 s of
             Some i \<Rightarrow> collapse_runs (cut_run 32 i s)
           | None \<Rightarrow> s))"
  by pat_completeness auto
termination
proof (relation "measure length")
  have found: "\<And>c n s i. search_run c n s = Some i \<Longrightarrow> take n (drop i s) = replicate n c"
  proof -
    fix c :: pychar and n s i
    show "search_run c n s = Some i \<Longrightarrow> take n (drop i s) = replicate n c"
    proof (induction s arbitrary: i)
      case Nil
      then show ?case by (simp split: if_splits)
    next
      case (Cons x xs)
      show ?case
      proof (cases "take n (x # xs) = replicate n c")
        case True
        with Cons.prems show ?thesis by simp
      next
        case False
        with Cons.prems obtain k where k: "search_run c n xs = Some k" "i = Suc k"
          by auto
        from Cons.IH [OF k(1)] k(2) show ?thesis by simp
      qed
    qed
  qed
  have shorter: "\<And>c s i. search_run c 101 s = Some i \<Longrightarrow> length (cut_run c i s) < length s"
  proof -
    fix c :: pychar and s i
    assume "search_run c 101 s = Some i"
    then have t: "take 101 (drop i s) = replicate 101 c" by (rule found)
    then have "length (take 101 (drop i s)) = 101" by (simp only: length_replicate)
    then have len: "101 \<le> length (drop i s)" by simp
    have "drop i s = replicate 101 c @ drop 101 (drop i s)"
      using append_take_drop_id [of 101 "drop i s"] t by (simp only:)
    moreover have "takeWhile (\<lambda>x. x = c) (replicate 101 c @ drop 101 (drop i s))
                 = replicate 101 c @ takeWhile (\<lambda>x. x = c) (drop 101 (drop i s))"
      by (rule takeWhile_append2) simp
    ultimately have "takeWhile (\<lambda>x. x = c) (drop i s)
                 = replicate 101 c @ takeWhile (\<lambda>x. x = c) (drop 101 (drop i s))"
      by (simp only:)
    then have "101 \<le> length (takeWhile (\<lambda>x. x = c) (drop i s))" by simp
    moreover have "length (takeWhile (\<lambda>x. x = c) (drop i s)) \<le> length (drop i s)"
      by (rule length_takeWhile_le)
    ultimately show "length (cut_run c i s) < length s"
      using len by (simp add: cut_run_def Let_def)
  qed
  show "wf (measure length)" by simp
  show "\<And>s x2. search_run 45 101 s = Some x2 \<Longrightarrow> (cut_run 45 x2 s, s) \<in> measure length"
    using shorter by simp
  show "\<And>s x2. search_run 45 101 s = None \<Longrightarrow> search_run 32 101 s = Some x2
          \<Longrightarrow> (cut_run 32 x2 s, s) \<in> measure length"
    using shorter by simp
qed

declare collapse_runs.simps [simp del]

subsection \<open>The continuation loop\<close>

text \<open>
  A turn of the history is \<open>{"role", "content"}\<close>. The Gateway is \<open>llm.invoke(history)\<close>:
  it raises or returns a reply, and may change its own state \<open>'g\<close>.
\<close>

datatype role = User | Assistant

type_synonym message = "role \<times> pystr"

type_synonym 'g gateway = "'g \<Rightarrow> message list \<Rightarrow> (exc + pystr) \<times> 'g"

text \<open>
  The two \<open>ValueError\<close>s of \<open>completion_parser\<close>: "The response is empty or seems
  repeated. Text/Compact Ratio: {ratio}" and "The LLM seems unable to complete its
  response within the continuation limit".
\<close>

datatype cp_error = DegenerateOutput nat | ContinuationExhausted

definition continue_message :: pystr where
  "continue_message =
     py ''Continue your previous response from the last word onward, without repeating. Do not restart or summarize. If you already finished, reply only with ''
       @ [39] @ py ''completed.'' @ [39]"

text \<open>The condition of the \<open>while\<close> loop.\<close>

definition needs_continuation :: "end_token \<Rightarrow> pystr \<Rightarrow> bool" where
  "needs_continuation tok current_completion \<longleftrightarrow>
     lower current_completion \<noteq> py ''completed.'' \<and> \<not> is_complete tok current_completion"

text \<open>
  The loop, from a state \<open>turns\<close>, \<open>current_completion\<close>, \<open>history\<close>. \<open>reqs\<close> logs the
  histories sent to the Gateway. The result is \<open>Inl\<close> for the \<open>raise\<close> in the loop and
  \<open>Inr history\<close> when the loop is left, by its condition or by one of the two \<open>break\<close>s
  (the Gateway raised; the reply was the sentinel).
\<close>

function continue_loop :: "end_token \<Rightarrow> int \<Rightarrow> 'g gateway \<Rightarrow> nat \<Rightarrow> pystr \<Rightarrow> message list
    \<Rightarrow> message list list \<Rightarrow> 'g \<Rightarrow> (cp_error + message list) \<times> message list list \<times> 'g" where
  "continue_loop tok max_continuations llm turns current_completion history reqs g =
     (if needs_continuation tok current_completion then
        if int turns \<ge> max_continuations then (Inl ContinuationExhausted, reqs, g)
        else
          (let history1 = history @ [(User, continue_message)] in
           case llm g history1 of
             (Inl e, g') \<Rightarrow> (Inr history1, reqs @ [history1], g')
           | (Inr next_chunk, g') \<Rightarrow>
               (let current_completion' = strip next_chunk in
                if lower current_completion' \<noteq> py ''completed.''
                then continue_loop tok max_continuations llm (turns + 1) current_completion'
                       (history1 @ [(Assistant, next_chunk)]) (reqs @ [history1]) g'
                else (Inr history1, reqs @ [history1], g')))
      else (Inr history, reqs, g))"
  by pat_completeness auto
termination
  by (relation "measure (\<lambda>(tok, max_continuations, llm, turns, rest). nat (max_continuations - int turns))")
     auto

declare continue_loop.simps [simp del]

subsection \<open>\<open>completion_parser\<close>\<close>

text \<open>\<open>current_completion.replace(" ", "").replace("-", "")\<close>.\<close>

definition compact_of :: "pystr \<Rightarrow> pystr" where
  "compact_of s = replace (py ''-'') [] (replace (py '' '') [] s)"

text \<open>\<open>"".join(m["content"] for m in history if m["role"] == "assistant")\<close>.\<close>

definition assemble :: "message list \<Rightarrow> pystr" where
  "assemble history = concat (map snd (filter (\<lambda>m. fst m = Assistant) history))"

text \<open>
  \<open>completion_parser(completion)\<close> for a first reply with content \<open>first\<close>. The result is
  what happens (\<open>Inl\<close> for a raised error, \<open>Inr assembled\<close> for the text handed to
  \<open>fixing_parser.parse\<close>), the histories sent to the Gateway in continuation requests,
  and the Gateway's state.
\<close>

definition completion_parser :: "end_token \<Rightarrow> int \<Rightarrow> 'g gateway \<Rightarrow> pystr \<Rightarrow> pystr \<Rightarrow> 'g
    \<Rightarrow> (cp_error + pystr) \<times> message list list \<times> 'g" where
  "completion_parser tok max_continuations llm prompt first g =
     (let history = [(User, prompt), (Assistant, first)];
          current_completion = strip first;
          compact = compact_of current_completion;
          current_completion = collapse_runs current_completion
      in if length compact = 0 \<or> length current_completion div max 1 (length compact) \<ge> 9
         then (Inl (DegenerateOutput (length current_completion div max 1 (length compact))), [], g)
         else
           (case continue_loop tok max_continuations llm 0 current_completion history [] g of
              (Inl err, reqs, g') \<Rightarrow> (Inl err, reqs, g')
            | (Inr history', reqs, g') \<Rightarrow> (Inr (assemble history'), reqs, g')))"

text \<open>A Gateway that plays a script of replies, one per request, and fails when the script is over.\<close>

definition scripted :: "(exc + pystr) list gateway" where
  "scripted g history =
     (case g of
        [] \<Rightarrow> (Inl (Exc (py ''RuntimeError'') (py ''script exhausted'')), [])
      | r # rs \<Rightarrow> (r, rs))"

text \<open>
  The guard on a reply in the words of the specification: the compacted form is the
  text without its space and dash characters; the text is degenerate when the compacted
  form is empty, or when the length of the text after the collapse of its long runs,
  divided by the compacted length, is at least 9.
\<close>

definition spec_compacted :: "pystr \<Rightarrow> pystr" where
  "spec_compacted text = filter (\<lambda>c. c \<noteq> 32 \<and> c \<noteq> 45) text"

definition spec_degenerate :: "pystr \<Rightarrow> bool" where
  "spec_degenerate text \<longleftrightarrow>
     length (spec_compacted text) = 0
     \<or> real (length (collapse_runs text)) / real (length (spec_compacted text)) \<ge> 9"

text \<open>
  The texts on which the controller runs its tests, for a first reply and the replies
  to the continuation requests: each reply trimmed, the first one with its long runs
  collapsed.
\<close>

definition tested :: "pystr \<Rightarrow> pystr list \<Rightarrow> pystr list" where
  "tested first rest = collapse_runs (strip first) # map strip rest"

section \<open>Table/record extractor (PromptOrchestratorSidekick.py)\<close>

subsection \<open>String operations of the extractor\<close>

text \<open>\<open>s.split(c)\<close> for a one-character separator: always at least one piece.\<close>

fun split :: "pychar \<Rightarrow> pystr \<Rightarrow> pystr list" where
  "split c [] = [[]]"
| "split c (x # xs) =
     (if x = c then [] # split c xs
      else (case split c xs of h # t \<Rightarrow> (x # h) # t | [] \<Rightarrow> [[x]]))"

text \<open>\<open>s.find(c)\<close> and \<open>s.rfind(c)\<close>, with \<open>None\<close> for \<open>-1\<close>.\<close>

fun find_char :: "pychar \<Rightarrow> pystr \<Rightarrow> nat option" where
  "find_char c [] = None"
| "find_char c (x # xs) = (if x = c then Some 0 else map_option Suc (find_char c xs))"

definition rfind_char :: "pychar \<Rightarrow> pystr \<Rightarrow> nat option" where
  "rfind_char c s = map_option (\<lambda>i. length s - 1 - i) (find_char c (rev s))"

text \<open>\<open>s.strip("|")\<close>.\<close>

definition strip_pipes :: "pystr \<Rightarrow> pystr" where
  "strip_pipes s = rev (dropWhile (\<lambda>x. x = 124) (rev (dropWhile (\<lambda>x. x = 124) s)))"

text \<open>\<open>sub in s\<close>.\<close>

fun contains :: "pystr \<Rightarrow> pystr \<Rightarrow> bool" where
  "contains sub [] = (sub = [])"
| "contains sub (x # xs) = (prefix sub (x # xs) \<or> contains sub xs)"

text \<open>
  \<open>re.sub(re.escape(kw), "", s, flags=re.IGNORECASE)\<close> for a lower-case ASCII word \<open>kw\<close>:
  an occurrence matches when its lowered characters are those of \<open>kw\<close>.
\<close>

fun remove_ignorecase :: "pystr \<Rightarrow> pystr \<Rightarrow> pystr" where
  "remove_ignorecase kw [] = []"
| "remove_ignorecase kw (c # cs) =
     (if kw \<noteq> [] \<and> lower (take (length kw) (c # cs)) = kw
      then remove_ignorecase kw (drop (length kw) (c # cs))
      else c # remove_ignorecase kw cs)"

text \<open>\<open>startswith('|') and endswith('|')\<close>.\<close>

definition piped :: "pystr \<Rightarrow> bool" where
  "piped s \<longleftrightarrow> prefix [124] s \<and> suffix [124] s"

text \<open>
  \<open>re.fullmatch(r'\|[\s:\-|]+\|', s)\<close>: a pipe, one or more characters that are
  whitespace, colon, dash or pipe, and a pipe.
\<close>

definition divider_fullmatch :: "pystr \<Rightarrow> bool" where
  "divider_fullmatch s \<longleftrightarrow>
     3 \<le> length s \<and> hd s = 124 \<and> last s = 124
     \<and> list_all (\<lambda>c. isspace c \<or> c = 58 \<or> c = 45 \<or> c = 124) (butlast (tl s))"

text \<open>
  \<open>re.sub(r'\|\s*<br>\s*\|', '|\n|', s)\<close>. \<open>row_break_match s\<close> is the length of the
  match of the pattern at the start of \<open>s\<close>, if there is one.
\<close>

definition row_break_match :: "pystr \<Rightarrow> nat option" where
  "row_break_match s =
     (case s of
        [] \<Rightarrow> None
      | c # r1 \<Rightarrow>
          if c \<noteq> 124 then None
          else (let r2 = dropWhile isspace r1 in
                if \<not> prefix (py ''<br>'') r2 then None
                else (let r3 = dropWhile isspace (drop 4 r2) in
                      if prefix [124] r3 then Some (length s - length r3 + 1) else None)))"

function restore_rows :: "pystr \<Rightarrow> pystr" where
  "restore_rows [] = []"
| "restore_rows (c # cs) =
     (case row_break_match (c # cs) of
        Some n \<Rightarrow> [124, 10, 124] @ restore_rows (drop n (c # cs))
      | None \<Rightarrow> c # restore_rows cs)"
  by pat_completeness auto
termination
proof (relation "measure length")
  show "wf (measure length)" by simp
  show "\<And>c cs. row_break_match (c # cs) = None \<Longrightarrow> (cs, c # cs) \<in> measure length" by simp
  show "\<And>c cs n. row_break_match (c # cs) = Some n \<Longrightarrow> (drop n (c # cs), c # cs) \<in> measure length"
  proof -
    fix c cs n assume "row_break_match (c # cs) = Some n"
    then have "0 < n"
      by (auto simp: row_break_match_def Let_def split: if_splits)
    then show "(drop n (c # cs), c # cs) \<in> measure length" by simp
  qed
qed

subsection \<open>\<open>remove_markdown\<close>\<close>

definition remove_markdown :: "pystr \<Rightarrow> pystr" where
  "remove_markdown text =
     strip (replace (py ''_ '') (py '' '')
             (replace (py '' _'') (py '' '')
               (replace (py ''**'') (py '' '')
                 (replace (py ''***'') (py '' '') text))))"

subsection \<open>\<open>sanitize_table\<close>\<close>

text \<open>
  The errors of the extractor: the two \<open>ValueError\<close>s of \<open>sanitize_table\<close> ("Table
  boundaries invalid ..." and "Unable to determine column count ..."), the \<open>ValueError\<close>
  of \<open>int()\<close> on text that is not a decimal literal, the \<open>IndexError\<close> of \<open>cols[j]\<close>
  in the merge of itemized rows, and \<open>Hangs\<close> for the \<open>while True\<close> loop of that merge
  where it never reaches its \<open>break\<close>.
\<close>

datatype table_error =
    TableBoundariesInvalid
  | ColumnCountUndetermined
  | InvalidIntLiteral pystr
  | IndexError
  | Hangs

text \<open>
  \<open>smart_pipe_replace(line)\<close>: a pipe at an index from 2 to \<open>len - 3\<close> that has not two
  spaces before it and has not two spaces after it becomes U+00A6. The source updates
  \<open>chars\<close> in place; the tests only compare neighbours with a space, and an update turns
  a pipe into another character that is not a space, so every test reads the same from
  \<open>line\<close>.
\<close>

definition smart_pipe_replace :: "pystr \<Rightarrow> pystr" where
  "smart_pipe_replace line =
     map (\<lambda>i. if 2 \<le> i \<and> i + 2 < length line \<and> line ! i = 124
                  \<and> (line ! (i - 2) \<noteq> 32 \<or> line ! (i - 1) \<noteq> 32)
                  \<and> (line ! (i + 2) \<noteq> 32 \<or> line ! (i + 1) \<noteq> 32)
               then 166 else line ! i)
         [0..<length line]"

text \<open>
  \<open>_is_keyword_row(line)\<close>. \<open>KEYWORD_ROWS\<close> is a set of two strings, and the order in
  which the loop visits them is not fixed by the source (it depends on the hash seed of
  the process): \<open>dot_first\<close> says whether "end of report." comes first.
\<close>

definition keyword_rows :: "bool \<Rightarrow> pystr list" where
  "keyword_rows dot_first =
     (if dot_first then [py ''end of report.'', py ''end of report'']
      else [py ''end of report'', py ''end of report.''])"

definition is_keyword_row :: "bool \<Rightarrow> pystr \<Rightarrow> bool" where
  "is_keyword_row dot_first line =
     (let s = strip line in
      if \<not> piped s then False
      else if divider_fullmatch s then False
      else
        (let inner = butlast (tl s);
             lowered = lower inner;
             inner = fold (\<lambda>kw inner. if contains kw lowered then remove_ignorecase kw inner else inner)
                       (keyword_rows dot_first) inner
         in strip (replace (py ''|'') [] (replace (py '':'') [] (replace (py ''-'') []
                     (replace (py '' '') [] inner)))) = []))"

text \<open>Step 5, one line: skipped, kept (as it is or repaired), or set aside as defective.\<close>

definition validate_line :: "bool \<Rightarrow> nat \<Rightarrow> pystr \<Rightarrow> pystr list \<times> pystr list \<Rightarrow> pystr list \<times> pystr list" where
  "validate_line dot_first num_cols line acc =
     (case acc of (fixed_text, defective_lines) \<Rightarrow>
        if is_keyword_row dot_first line then (fixed_text, defective_lines)
        else if piped line then
          (let cells = butlast (tl (split 124 line)) in
           if length cells \<noteq> num_cols then
             (let fixed_line = smart_pipe_replace line;
                  cells = butlast (tl (split 124 fixed_line))
              in if length cells \<noteq> num_cols then (fixed_text, defective_lines @ [line])
                 else (fixed_text @ [strip fixed_line], defective_lines))
           else (fixed_text @ [strip line], defective_lines))
        else (fixed_text @ [strip line], defective_lines))"

definition sanitize_table :: "bool \<Rightarrow> pystr \<Rightarrow> table_error + (pystr \<times> pystr list)" where
  "sanitize_table dot_first text =
     (let text = replace [92, 124] [166] (replace (py ''||'') [8214] text) in
      case (find_char 124 text, rfind_char 124 text) of
        (Some first_pipe, Some last_pipe) \<Rightarrow>
          if first_pipe \<ge> last_pipe then Inl TableBoundariesInvalid
          else
            (let trimmed = take (last_pipe + 1 - first_pipe) (drop first_pipe text);
                 lines = split 10 (strip trimmed);
                 clean_lines = filter (\<lambda>line. strip line \<noteq> []) lines;
                 num_cols = (case find (\<lambda>line. divider_fullmatch (strip line)) clean_lines of
                               Some line \<Rightarrow> count_list line 124 - 1
                             | None \<Rightarrow> 0);
                 num_cols = (if num_cols = 0
                             then (case find (\<lambda>line. piped (strip line)) clean_lines of
                                     Some line \<Rightarrow> count_list line 124 - 1
                                   | None \<Rightarrow> 0)
                             else num_cols)
             in if num_cols = 0 then Inl ColumnCountUndetermined
                else
                  (let trimmed = join [10] clean_lines;
                       br_text = replace [10] (py ''<br>'') trimmed;
                       br_text = restore_rows br_text;
                       (fixed_text, defective_lines) =
                          fold (validate_line dot_first num_cols) (split 10 (strip br_text)) ([], [])
                   in Inr (join [10] fixed_text, defective_lines)))
      | _ \<Rightarrow> Inl TableBoundariesInvalid)"

subsection \<open>Table blocks\<close>

text \<open>
  The divider test of the block loop:
  \<open>len(stripped_line.replace("|", "").replace("-", "").replace(":", "").strip()) == 0\<close>.
\<close>

definition divider_like :: "pystr \<Rightarrow> bool" where
  "divider_like stripped_line \<longleftrightarrow>
     length (strip (replace (py '':'') [] (replace (py ''-'') []
               (replace (py ''|'') [] stripped_line)))) = 0"

text \<open>The loop over the lines, with its state \<open>tables\<close>, \<open>current_table\<close>, \<open>table_found\<close>.\<close>

fun table_blocks :: "pystr list \<Rightarrow> pystr list list \<Rightarrow> pystr list \<Rightarrow> bool
    \<Rightarrow> pystr list list \<times> pystr list \<times> bool" where
  "table_blocks [] tables current_table table_found = (tables, current_table, table_found)"
| "table_blocks (line # lines) tables current_table table_found =
     (let stripped_line = strip line in
      if piped stripped_line then
        if divider_like stripped_line
        then table_blocks lines tables (if length current_table = 1 then [] else current_table) True
        else table_blocks lines tables (current_table @ [stripped_line]) table_found
      else if length stripped_line = 0 then table_blocks lines tables current_table table_found
      else if current_table \<noteq> [] then table_blocks lines (tables @ [current_table]) [] table_found
      else table_blocks lines tables current_table table_found)"

text \<open>
  The blocks of a sanitized text: the loop over its lines, then
  \<open>if current_table: tables.append(current_table)\<close>; with \<open>table_found\<close>.
\<close>

definition blocks_of :: "pystr \<Rightarrow> pystr list list \<times> bool" where
  "blocks_of md_text =
     (case table_blocks (split 10 md_text) [] [] False of
        (tables, current_table, table_found) \<Rightarrow>
          (if current_table \<noteq> [] then tables @ [current_table] else tables, table_found))"

text \<open>The lines of a text that are table-like: a delimiter at both ends, once trimmed.\<close>

definition table_lines :: "pystr \<Rightarrow> pystr list" where
  "table_lines text = filter (\<lambda>line. piped (strip line)) (split 10 text)"

subsection \<open>Merging itemized rows\<close>

text \<open>\<open>[str(col).rstrip() for col in row.split("|")]\<close>.\<close>

definition cols_of :: "pystr \<Rightarrow> pystr list" where
  "cols_of row = map rstrip (split 124 row)"

text \<open>
  The test of the \<open>for\<close> loop on a row that is not the first: the row has a column
  \<open>column_id\<close> and that column is empty.
\<close>

definition itemized :: "nat \<Rightarrow> pystr \<Rightarrow> bool" where
  "itemized column_id row \<longleftrightarrow>
     \<not> length (cols_of row) < column_id + 1 \<and> length (cols_of row ! column_id) = 0"

text \<open>The index at which the \<open>for\<close> loop reaches its \<open>break\<close>: the first itemized row after row 0.\<close>

fun first_index :: "('a \<Rightarrow> bool) \<Rightarrow> 'a list \<Rightarrow> nat option" where
  "first_index P [] = None"
| "first_index P (x # xs) = (if P x then Some 0 else map_option Suc (first_index P xs))"

definition first_itemized :: "nat \<Rightarrow> pystr list \<Rightarrow> nat option" where
  "first_itemized column_id table_rows =
     (case table_rows of [] \<Rightarrow> None | r # rs \<Rightarrow> map_option Suc (first_index (itemized column_id) rs))"

text \<open>
  The new parent row: each parent column other than \<open>column_id\<close> gets the break marker
  and the row's column of the same index; \<open>cols[j]\<close> raises when the row has no such
  column.
\<close>

definition merge_into :: "nat \<Rightarrow> pystr \<Rightarrow> pystr \<Rightarrow> table_error + pystr" where
  "merge_into column_id parent_row row =
     (let parent_cols = cols_of parent_row;
          cols = cols_of row
      in if list_ex (\<lambda>j. j \<noteq> column_id \<and> \<not> j < length cols) [0..<length parent_cols]
         then Inl IndexError
         else Inr (join [124]
                (map (\<lambda>(j, parent_col). if j \<noteq> column_id then parent_col @ py '' <br> '' @ cols ! j
                                           else parent_col)
                     (enumerate 0 parent_cols))))"

text \<open>
  The \<open>while True\<close> loop. When the \<open>for\<close> loop ends without a merge, \<open>i_h\<close> is the last
  index and the loop is left. After a merge at \<open>i\<close> the row is removed, \<open>i_h\<close> is \<open>i\<close>,
  and the loop is left when \<open>i_h == len(table_rows) - 1\<close> for the new length. On an
  empty list, \<open>i_h\<close> stays 0, never equal to \<open>-1\<close>, and the loop does not end.
\<close>

function merge_rows :: "nat \<Rightarrow> pystr list \<Rightarrow> table_error + pystr list" where
  "merge_rows column_id table_rows =
     (if table_rows = [] then Inl Hangs
      else case first_itemized column_id table_rows of
             None \<Rightarrow> Inr table_rows
           | Some i \<Rightarrow>
               (case merge_into column_id (table_rows ! (i - 1)) (table_rows ! i) of
                  Inl e \<Rightarrow> Inl e
                | Inr parent_row \<Rightarrow>
                    (let table_rows' = take (i - 1) table_rows @ [parent_row] @ drop (i + 1) table_rows
                     in if int i = int (length table_rows') - 1 then Inr table_rows'
                        else merge_rows column_id table_rows')))"
  by pat_completeness auto
termination
proof (relation "measure (\<lambda>(column_id, table_rows). length table_rows)")
  show "wf (measure (\<lambda>(column_id, table_rows). length table_rows))" by simp
  fix column_id :: nat and table_rows :: "pystr list" and i parent_row table_rows'
  assume ne: "table_rows \<noteq> []"
    and i: "first_itemized column_id table_rows = Some i"
    and t: "table_rows' = take (i - 1) table_rows @ [parent_row] @ drop (i + 1) table_rows"
  have bound: "\<And>P (xs :: pystr list) k. first_index P xs = Some k \<Longrightarrow> k < length xs"
  proof -
    fix P and xs :: "pystr list" and k
    show "first_index P xs = Some k \<Longrightarrow> k < length xs"
      by (induction xs arbitrary: k) (auto split: if_splits)
  qed
  from i obtain r rs k where "table_rows = r # rs" "first_index (itemized column_id) rs = Some k" "i = Suc k"
    by (auto simp: first_itemized_def split: list.splits)
  with bound [of "itemized column_id" rs k] have "0 < i" "i < length table_rows" by simp_all
  with t show "((column_id, table_rows'), (column_id, table_rows))
                 \<in> measure (\<lambda>(column_id, table_rows). length table_rows)"
    by simp
qed

declare merge_rows.simps [simp del]

text \<open>
  The merge in the words of the specification. \<open>merged_row\<close>: each column of the row
  other than the identifier column is appended, after the break marker, to the column
  of the same index of its predecessor. \<open>spec_merge\<close>: going through the block from its
  first row, every later row with an empty identifier is merged into the row before it.
  \<open>ends_with_two_itemized\<close>: the block has at least three rows and its last two rows
  both have an empty identifier.
\<close>

definition merged_row :: "nat \<Rightarrow> pystr \<Rightarrow> pystr \<Rightarrow> pystr" where
  "merged_row column_id parent_row row =
     join [124]
       (map (\<lambda>j. if j = column_id then cols_of parent_row ! j
                 else cols_of parent_row ! j @ py '' <br> '' @ cols_of row ! j)
            [0..<length (cols_of parent_row)])"

fun absorb :: "nat \<Rightarrow> pystr \<Rightarrow> pystr list \<Rightarrow> pystr list" where
  "absorb column_id parent_row [] = [parent_row]"
| "absorb column_id parent_row (row # rows) =
     (if itemized column_id row then absorb column_id (merged_row column_id parent_row row) rows
      else parent_row # absorb column_id row rows)"

definition spec_merge :: "nat \<Rightarrow> pystr list \<Rightarrow> pystr list" where
  "spec_merge column_id table_rows =
     (case table_rows of [] \<Rightarrow> [] | row # rows \<Rightarrow> absorb column_id row rows)"

definition ends_with_two_itemized :: "nat \<Rightarrow> pystr list \<Rightarrow> bool" where
  "ends_with_two_itemized column_id table_rows \<longleftrightarrow>
     3 \<le> length table_rows
     \<and> itemized column_id (table_rows ! (length table_rows - 2))
     \<and> itemized column_id (last table_rows)"

subsection \<open>Schemas, values and the coercion of a column\<close>

text \<open>
  A Record Schema is \<open>model.__annotations__\<close>: the field names in order, each with its
  declared type; every type other than \<open>int\<close>, \<open>float\<close> and \<open>bool\<close> takes the default
  branch. A record is the \<open>data_dict\<close> handed to the model's constructor (the validation
  done by the constructor belongs to the pydantic library and is not part of this
  development). A float is its exact decimal value.
\<close>

datatype ftype = TInt | TFloat | TBool | TOther

datatype pyval = VInt int | VFloat rat | VBool bool | VStr pystr | VNone

type_synonym schema = "(pystr \<times> ftype) list"

type_synonym typed_record = "(pystr \<times> pyval) list"

text \<open>
  \<open>str.isdigit()\<close> holds for more than the decimal digits: up to U+00FF these are the
  superscripts U+00B2, U+00B3 and U+00B9, which \<open>int()\<close> refuses. The digit classes are
  given here for the code points up to U+00FF.
\<close>

definition decimal_digit :: "pychar \<Rightarrow> bool" where
  "decimal_digit c \<longleftrightarrow> 48 \<le> c \<and> c \<le> 57"

definition isdigit_char :: "pychar \<Rightarrow> bool" where
  "isdigit_char c \<longleftrightarrow> decimal_digit c \<or> c = 178 \<or> c = 179 \<or> c = 185"

definition isdigit :: "pystr \<Rightarrow> bool" where
  "isdigit s \<longleftrightarrow> s \<noteq> [] \<and> list_all isdigit_char s"

text \<open>\<open>int(s)\<close> for a text that passed \<open>isdigit\<close>.\<close>

definition int_of_digits :: "pystr \<Rightarrow> table_error + int" where
  "int_of_digits s =
     (if list_all decimal_digit s then Inr (int (decval s)) else Inl (InvalidIntLiteral s))"

text \<open>
  \<open>re.match(r"^\d+(\.\d+)?$", s)\<close>: digits, and possibly a dot and digits; \<open>$\<close> also
  matches before one line feed at the very end.
\<close>

definition float_match :: "pystr \<Rightarrow> (pystr \<times> pystr) option" where
  "float_match s =
     (let core = (if s \<noteq> [] \<and> last s = 10 then butlast s else s);
          whole = takeWhile decimal_digit core;
          rest = dropWhile decimal_digit core
      in if whole = [] then None
         else if rest = [] then Some (whole, [])
         else if hd rest = 46 \<and> tl rest \<noteq> [] \<and> list_all decimal_digit (tl rest)
              then Some (whole, tl rest)
              else None)"

definition float_value :: "pystr \<Rightarrow> pystr \<Rightarrow> rat" where
  "float_value whole decimals = of_nat (decval whole) + of_nat (decval decimals) / 10 ^ length decimals"

definition truthy :: "pystr list" where
  "truthy = [py ''true'', py ''yes'', py ''1'']"




text \<open>The branch on \<open>field_type\<close>, for the cleaned text of one column.\<close>

definition convert_cell :: "ftype \<Rightarrow> pystr \<Rightarrow> table_error + pyval" where
  "convert_cell field_type col =
     (case field_type of
        TInt \<Rightarrow> (if isdigit col
                  then (case int_of_digits col of Inl e \<Rightarrow> Inl e | Inr n \<Rightarrow> Inr (VInt n))
                  else Inr VNone)
      | TFloat \<Rightarrow> (case float_match col of
                     Some (whole, decimals) \<Rightarrow> Inr (VFloat (float_value whole decimals))
                   | None \<Rightarrow> Inr VNone)
      | TBool \<Rightarrow> Inr (VBool (lower col \<in> set truthy))
      | TOther \<Rightarrow> Inr (VStr col))"

text \<open>
  \<open>for i, field in enumerate(model_fields)\<close>, left by \<open>if len(cols) == i: break\<close>: the
  fields are filled from the columns in order, as far as both go.
\<close>

fun build_record :: "schema \<Rightarrow> pystr list \<Rightarrow> table_error + typed_record" where
  "build_record [] cols = Inr []"
| "build_record ((field, field_type) # model_fields) [] = Inr []"
| "build_record ((field, field_type) # model_fields) (col # cols) =
     (case convert_cell field_type col of
        Inl e \<Rightarrow> Inl e
      | Inr v \<Rightarrow>
          (case build_record model_fields cols of
             Inl e \<Rightarrow> Inl e
           | Inr data_dict \<Rightarrow> Inr ((field, v) # data_dict)))"

definition row_record :: "schema \<Rightarrow> pystr \<Rightarrow> table_error + typed_record" where
  "row_record model row =
     build_record model (map (\<lambda>col. strip (remove_markdown col)) (split 124 row))"

fun rows_records :: "schema \<Rightarrow> pystr list \<Rightarrow> table_error + typed_record list" where
  "rows_records model [] = Inr []"
| "rows_records model (row # rows) =
     (case row_record model row of
        Inl e \<Rightarrow> Inl e
      | Inr inst \<Rightarrow>
          (case rows_records model rows of
             Inl e \<Rightarrow> Inl e
           | Inr instances \<Rightarrow> Inr (inst # instances)))"

subsection \<open>\<open>md_table_to_pydantic_list\<close>\<close>

text \<open>One table: its rows without the outer pipes, merged when \<open>column_id\<close> is given, then converted.\<close>

definition table_records :: "schema \<Rightarrow> nat option \<Rightarrow> pystr list \<Rightarrow> table_error + typed_record list" where
  "table_records model column_id table =
     (let table_rows = map (\<lambda>row. strip (strip_pipes row)) table in
      case (case column_id of None \<Rightarrow> Inr table_rows | Some cid \<Rightarrow> merge_rows cid table_rows) of
        Inl e \<Rightarrow> Inl e
      | Inr table_rows \<Rightarrow> rows_records model table_rows)"

fun tables_records :: "schema \<Rightarrow> nat option \<Rightarrow> pystr list list \<Rightarrow> table_error + typed_record list" where
  "tables_records model column_id [] = Inr []"
| "tables_records model column_id (table # tables) =
     (case table_records model column_id table of
        Inl e \<Rightarrow> Inl e
      | Inr instances \<Rightarrow>
          (case tables_records model column_id tables of
             Inl e \<Rightarrow> Inl e
           | Inr later \<Rightarrow> Inr (instances @ later)))"

text \<open>
  What the function returns: \<open>None\<close>, the bare list \<open>[]\<close>, or the pair
  \<open>(instances, defective_lines)\<close>.
\<close>

datatype extraction = NoTable | EmptyList | Extracted "typed_record list" "pystr list"

definition md_table_to_pydantic_list :: "bool \<Rightarrow> schema \<Rightarrow> nat option \<Rightarrow> pystr
    \<Rightarrow> table_error + extraction" where
  "md_table_to_pydantic_list dot_first model column_id md_text =
     (case sanitize_table dot_first md_text of
        Inl e \<Rightarrow> Inl e
      | Inr (md_text, defective_lines) \<Rightarrow>
          (case blocks_of md_text of
             (tables, table_found) \<Rightarrow>
               if tables = [] then (if table_found then Inr EmptyList else Inr NoTable)
               else (case tables_records model column_id tables of
                       Inl e \<Rightarrow> Inl e
                     | Inr instances \<Rightarrow> Inr (Extracted instances defective_lines))))"

subsection \<open>Example tables\<close>

text \<open>Lines joined by line feeds, and a schema of a string, an integer and a boolean field.\<close>

definition lines_text :: "pystr list \<Rightarrow> pystr" where
  "lines_text ls = join [10] ls"

definition ex_schema :: schema where
  "ex_schema = [(py ''name'', TOther), (py ''count'', TInt), (py ''flag'', TBool)]"















section \<open>Properties of the fan-out\<close>

lemma gather_wait_all_returned:
  assumes "\<forall>k \<in> set sched. k < length tasks \<and> \<not> isl (tasks ! k)"
  shows "gather_wait tasks sched fin = (fin @ sched, None)"
  using assms
proof (induction sched arbitrary: fin)
  case Nil
  then show ?case by simp
next
  case (Cons k sched)
  from Cons.prems obtain r where "tasks ! k = Inr r"
    by (cases "tasks ! k") auto
  with Cons show ?case by simp
qed

lemma run_one_returns: "\<not> isl (run_one invoke i p)"
  by (simp add: run_one_def split: sum.splits)

lemma projr_run_one: "projr (run_one invoke i p) = (i, invoke p)"
  by (cases "invoke p") (simp_all add: run_one_def)

lemma propagate_out:
  "fst (propagate results out first_exc) = out @ map snd results"
  by (induction results out first_exc rule: propagate.induct) simp_all

lemma propagate_first_none:
  "\<forall>r \<in> set results. \<not> isl (snd r) \<Longrightarrow> snd (propagate results out first_exc) = first_exc"
  by (induction results out first_exc rule: propagate.induct) (auto split: sum.splits)

lemma propagate_first_some:
  "snd (propagate results out (Some e)) = Some e"
  by (induction results out "Some e" rule: propagate.induct) (auto split: sum.splits)

lemma propagate_first_exc:
  assumes "i < length results" "snd (results ! i) = Inl e"
    and "\<forall>j < i. \<not> isl (snd (results ! j))"
  shows "snd (propagate results out None) = Some e"
  using assms
proof (induction results arbitrary: i out)
  case Nil
  then show ?case by simp
next
  case (Cons x results)
  obtain k r where x: "x = (k, r)" by (cases x)
  show ?case
  proof (cases i)
    case 0
    with Cons.prems x show ?thesis by (simp add: propagate_first_some)
  next
    case (Suc i')
    with Cons.prems have "\<not> isl (snd ((x # results) ! 0))" by blast
    then obtain v where r: "r = Inr v" using x by (cases r) auto
    have "snd (propagate results (out @ [r]) None) = Some e"
    proof (rule Cons.IH [of i'])
      show "i' < length results" using Cons.prems Suc by simp
      show "snd (results ! i') = Inl e" using Cons.prems Suc by simp
      show "\<forall>j<i'. \<not> isl (snd (results ! j))"
      proof (intro allI impI)
        fix j assume "j < i'"
        then have "Suc j < i" using Suc by simp
        with Cons.prems have "\<not> isl (snd ((x # results) ! Suc j))" by blast
        then show "\<not> isl (snd (results ! j))" by simp
      qed
    qed
    with x r show ?thesis by simp
  qed
qed

lemma indexed_results:
  "map projr (map (\<lambda>(i, p). run_one invoke i p) (enumerate n prompts))
     = map (\<lambda>(i, p). (i, invoke p)) (enumerate n prompts)"
  by (simp add: projr_run_one case_prod_unfold)

lemma fst_indexed_results:
  "map fst (map (\<lambda>(i, p). (i, invoke p)) (enumerate n prompts)) = [n..<n + length prompts]"
  by (simp add: case_prod_unfold flip: map_fst_enumerate)

lemma snd_indexed_results:
  "map snd (map (\<lambda>(i, p). (i, invoke p)) (enumerate n prompts)) = map invoke prompts"
  by (induction prompts arbitrary: n) simp_all

lemma sort_indexed_results:
  "sort_key fst (map (\<lambda>(i, p). (i, invoke p)) (enumerate n prompts))
     = map (\<lambda>(i, p). (i, invoke p)) (enumerate n prompts)"
  by (rule sort_key_id_if_sorted) (simp only: fst_indexed_results sorted_upt)

lemma invoke_many_run:
  assumes "mset sched = mset [0..<length prompts]"
  shows "invoke_many invoke sched prompts =
           (sched, case snd (propagate (map (\<lambda>(i, p). (i, invoke p)) (enumerate 0 prompts)) [] None) of
                     Some e \<Rightarrow> Inl e
                   | None \<Rightarrow> Inr (map invoke prompts))"
proof -
  let ?tasks = "map (\<lambda>(i, p). run_one invoke i p) (enumerate 0 prompts)"
  let ?results = "map (\<lambda>(i, p). (i, invoke p)) (enumerate 0 prompts)"
  have "set sched = set [0..<length prompts]"
    using assms by (metis set_mset_mset)
  then have "\<forall>k \<in> set sched. k < length ?tasks \<and> \<not> isl (?tasks ! k)"
    by (simp add: run_one_returns case_prod_unfold)
  then have "gather_wait ?tasks sched [] = ([] @ sched, None)"
    by (rule gather_wait_all_returned)
  then have "gather_wait ?tasks sched [] = (sched, None)"
    by simp
  moreover have "map projr ?tasks = ?results"
    by (rule indexed_results)
  ultimately have g: "gather ?tasks sched = (sched, Inr ?results)"
    by (simp only: gather_def prod.case option.case)
  have out: "fst (propagate ?results [] None) = map invoke prompts"
    by (simp only: propagate_out snd_indexed_results append_Nil)
  obtain out first_exc where pr: "propagate ?results [] None = (out, first_exc)"
    by (cases "propagate ?results [] None")
  with out have "out = map invoke prompts" by simp
  with g pr show ?thesis
    by (simp add: invoke_many_def sort_indexed_results split: option.splits)
qed

text \<open>
  C2. Ordered fail-fast. Whatever the order in which the event loop finishes the K
  units, every unit has finished when \<open>invoke_many\<close> comes back, whatever the outcomes
  of the others; when no unit raised, the K results are returned in submission order;
  when some unit raised, the exception of the failing unit with the smallest submission
  index is raised, after all K units have finished, and no result is returned.
\<close>

theorem invoke_many_ordered_fail_fast:
  assumes "mset sched = mset [0..<length prompts]"
  shows "mset (fst (invoke_many invoke sched prompts)) = mset [0..<length prompts]
       \<and> ((\<forall>p \<in> set prompts. \<not> isl (invoke p))
            \<longrightarrow> snd (invoke_many invoke sched prompts) = Inr (map invoke prompts))
       \<and> (\<forall>i e. i < length prompts \<and> invoke (prompts ! i) = Inl e
                 \<and> (\<forall>j < i. \<not> isl (invoke (prompts ! j)))
            \<longrightarrow> snd (invoke_many invoke sched prompts) = Inl e)"
proof (intro conjI impI allI)
  let ?results = "map (\<lambda>(i, p). (i, invoke p)) (enumerate 0 prompts)"
  note run = invoke_many_run [OF assms, of invoke]
  show "mset (fst (invoke_many invoke sched prompts)) = mset [0..<length prompts]"
    using assms by (simp add: run)
  {
    assume ok: "\<forall>p \<in> set prompts. \<not> isl (invoke p)"
    have results: "set (map snd ?results) = invoke ` set prompts"
      by (simp only: snd_indexed_results set_map)
    have "\<forall>r \<in> set ?results. \<not> isl (snd r)"
    proof
      fix r assume "r \<in> set ?results"
      then have "snd r \<in> set (map snd ?results)" by (simp only: set_map) (rule imageI)
      with results ok show "\<not> isl (snd r)" by auto
    qed
    then have "snd (propagate ?results [] None) = None"
      by (rule propagate_first_none)
    then show "snd (invoke_many invoke sched prompts) = Inr (map invoke prompts)"
      by (simp add: run)
  }
  {
    fix i e
    assume h: "i < length prompts \<and> invoke (prompts ! i) = Inl e
               \<and> (\<forall>j < i. \<not> isl (invoke (prompts ! j)))"
    have nth: "\<And>k. k < length prompts \<Longrightarrow> snd (?results ! k) = invoke (prompts ! k)"
      by (simp add: nth_enumerate_eq)
    have "snd (propagate ?results [] None) = Some e"
    proof (rule propagate_first_exc [of i])
      show "i < length ?results" using h by simp
      show "snd (?results ! i) = Inl e" using h nth by simp
      show "\<forall>j<i. \<not> isl (snd (?results ! j))" using h nth by simp
    qed
    then show "snd (invoke_many invoke sched prompts) = Inl e"
      by (simp add: run)
  }
qed

text \<open>
  The units [A (ok), B (error), C (ok)] finishing in the order C, A, B: B's error is
  raised once all three have finished; and three units that all succeed.
\<close>

theorem invoke_many_ordered_fail_fast_witness:
  "invoke_many (\<lambda>p. if p = py ''B'' then Inl (Exc (py ''ValueError'') (py ''boom'')) else Inr p)
       [2, 0, 1] [py ''A'', py ''B'', py ''C'']
     = ([2, 0, 1], Inl (Exc (py ''ValueError'') (py ''boom'')))
   \<and> invoke_many (\<lambda>p. Inr (p @ p) :: exc + pystr) [1, 2, 0] [py ''A'', py ''B'', py ''C'']
     = ([1, 2, 0], Inr [Inr (py ''AA''), Inr (py ''BB''), Inr (py ''CC'')])"
proof -
  have perm1: "mset [2, 0, 1] = mset [0..<length [py ''A'', py ''B'', py ''C'']]"
    by (simp add: numeral_3_eq_3 numeral_2_eq_2)
  have perm2: "mset [1, 2, 0] = mset [0..<length [py ''A'', py ''B'', py ''C'']]"
    by (simp add: numeral_3_eq_3 numeral_2_eq_2)
  let ?f = "\<lambda>p. if p = py ''B'' then Inl (Exc (py ''ValueError'') (py ''boom'')) else Inr p"
  let ?g = "\<lambda>p. Inr (p @ p) :: exc + pystr"
  have a: "snd (invoke_many ?f [2, 0, 1] [py ''A'', py ''B'', py ''C''])
             = Inl (Exc (py ''ValueError'') (py ''boom''))"
    using invoke_many_ordered_fail_fast [OF perm1, of ?f, THEN conjunct2, THEN conjunct2,
        rule_format, of 1 "Exc (py ''ValueError'') (py ''boom'')"]
    by (simp add: py_def)
  have b: "snd (invoke_many ?g [1, 2, 0] [py ''A'', py ''B'', py ''C''])
             = Inr [Inr (py ''AA''), Inr (py ''BB''), Inr (py ''CC'')]"
    using invoke_many_ordered_fail_fast [OF perm2, of ?g]
    by (simp add: py_def)
  have c: "fst (invoke_many ?f [2, 0, 1] [py ''A'', py ''B'', py ''C'']) = [2, 0, 1]"
    by (simp add: invoke_many_def gather_def run_one_def py_def)
  have d: "fst (invoke_many ?g [1, 2, 0] [py ''A'', py ''B'', py ''C'']) = [1, 2, 0]"
    by (simp add: invoke_many_def gather_def run_one_def py_def)
  show ?thesis using a b c d by (simp only: prod_eq_iff fst_conv snd_conv simp_thms)
qed










subsection \<open>The admission bound\<close>

lemma filter_list_update:
  "i < length xs \<Longrightarrow>
     length (filter P (xs[i := v])) + (if P (xs ! i) then 1 else 0)
       = length (filter P xs) + (if P v then 1 else 0)"
proof (induction xs arbitrary: i)
  case Nil
  then show ?case by simp
next
  case (Cons x xs)
  show ?case
  proof (cases i)
    case 0
    then show ?thesis by simp
  next
    case (Suc j)
    with Cons.prems have "j < length xs" by simp
    from Cons.IH [OF this] Suc show ?thesis by simp
  qed
qed

definition balanced :: "nat \<Rightarrow> fan_state \<Rightarrow> bool" where
  "balanced L s \<longleftrightarrow> (\<exists>p. permits s = Some p \<and> p + in_flight s = L)"

lemma fire_balanced:
  assumes "balanced L s" "fire e s = Some s'"
  shows "balanced L s'"
proof -
  from assms(1) obtain p where p: "permits s = Some p" "p + in_flight s = L"
    unfolding balanced_def by blast
  show ?thesis
  proof (cases e)
    case (Enter i)
    with assms(2) p obtain n where i: "i < length (phases s)" "phases s ! i = Pending"
      and n: "p = Suc n" and s': "s' = \<lparr>permits = Some n, phases = (phases s)[i := Working]\<rparr>"
      by (cases p) (auto split: if_splits)
    from filter_list_update [OF i(1), of "\<lambda>p. p = Working" Working] i(2)
    have "in_flight s' = Suc (in_flight s)"
      by (simp add: in_flight_def s')
    with p n s' show ?thesis by (simp add: balanced_def)
  next
    case (Leave i)
    with assms(2) p have i: "i < length (phases s)" "phases s ! i = Working"
      and s': "s' = \<lparr>permits = Some (Suc p), phases = (phases s)[i := Finished]\<rparr>"
      by (auto split: if_splits)
    from filter_list_update [OF i(1), of "\<lambda>p. p = Working" Finished] i(2)
    have "Suc (in_flight s') = in_flight s"
      by (simp add: in_flight_def s')
    with p s' show ?thesis by (auto simp: balanced_def)
  qed
qed

lemma run_events_balanced:
  "balanced L s \<Longrightarrow> run_events es s = Some s' \<Longrightarrow> balanced L s'"
proof (induction es arbitrary: s)
  case Nil
  then show ?case by simp
next
  case (Cons e es)
  from Cons.prems(2) obtain s1 where s1: "fire e s = Some s1" "run_events es s1 = Some s'"
    by (auto split: option.splits)
  from fire_balanced [OF Cons.prems(1) s1(1)] have "balanced L s1" .
  from Cons.IH [OF this s1(2)] show ?case .
qed

lemma start_balanced: "balanced L (start (Some L) K)"
  by (simp add: balanced_def start_def in_flight_def)

lemma enter_all_unlimited:
  "run_events (map Enter [j..<j + m])
       \<lparr>permits = None, phases = replicate j Working @ replicate m Pending\<rparr>
     = Some \<lparr>permits = None, phases = replicate (j + m) Working\<rparr>"
proof (induction m arbitrary: j)
  case 0
  then show ?case by simp
next
  case (Suc m)
  have upt: "[j..<j + Suc m] = j # [Suc j..<Suc j + m]"
    by (simp add: upt_conv_Cons)
  have upd: "(replicate j Working @ replicate (Suc m) Pending)[j := Working]
               = replicate (Suc j) Working @ replicate m Pending"
    by (simp add: list_update_append replicate_append_same)
  have nth: "(replicate j Working @ replicate (Suc m) Pending) ! j = Pending"
    by (simp add: nth_append)
  have "fire (Enter j) \<lparr>permits = None, phases = replicate j Working @ replicate (Suc m) Pending\<rparr>
          = Some \<lparr>permits = None, phases = replicate (Suc j) Working @ replicate m Pending\<rparr>"
    using upd nth by simp
  moreover have "run_events (map Enter [Suc j..<Suc j + m])
       \<lparr>permits = None, phases = replicate (Suc j) Working @ replicate m Pending\<rparr>
     = Some \<lparr>permits = None, phases = replicate (Suc j + m) Working\<rparr>"
    by (rule Suc.IH)
  ultimately show ?case unfolding upt by simp
qed

text \<open>
  C6. With an admission limit L > 0, in every state that the units can reach, at most L
  units are inside their semaphore-guarded work; with the limit 0 there is no
  semaphore, and all K units can be inside their work at the same time.
\<close>

theorem admission_limit_bounds_in_flight:
  "(0 < admission_limit concurrency self_concurrency
      \<and> run_events es (start (make_semaphore concurrency self_concurrency) K) = Some s
     \<longrightarrow> int (in_flight s) \<le> admission_limit concurrency self_concurrency)
   \<and> (admission_limit concurrency self_concurrency = 0
     \<longrightarrow> (\<exists>s. run_events (map Enter [0..<K]) (start (make_semaphore concurrency self_concurrency) K) = Some s
              \<and> in_flight s = K))"
proof (intro conjI impI)
  let ?L = "admission_limit concurrency self_concurrency"
  {
    assume h: "0 < ?L \<and> run_events es (start (make_semaphore concurrency self_concurrency) K) = Some s"
    then have sem: "make_semaphore concurrency self_concurrency = Some (nat ?L)"
      by (simp add: make_semaphore_def)
    have "balanced (nat ?L) (start (Some (nat ?L)) K)" by (rule start_balanced)
    with h sem have "balanced (nat ?L) s"
      using run_events_balanced by metis
    then have "in_flight s \<le> nat ?L" by (auto simp: balanced_def)
    with h show "int (in_flight s) \<le> ?L" by linarith
  }
  {
    assume "?L = 0"
    then have sem: "make_semaphore concurrency self_concurrency = None"
      by (simp add: make_semaphore_def)
    have "run_events (map Enter [0..<0 + K])
       \<lparr>permits = None, phases = replicate 0 Working @ replicate K Pending\<rparr>
     = Some \<lparr>permits = None, phases = replicate (0 + K) Working\<rparr>"
      by (rule enter_all_unlimited)
    then have "run_events (map Enter [0..<K]) (start None K)
                 = Some \<lparr>permits = None, phases = replicate K Working\<rparr>"
      by (simp add: start_def)
    moreover have "in_flight \<lparr>permits = None, phases = replicate K Working\<rparr> = K"
      by (simp add: in_flight_def)
    ultimately show "\<exists>s. run_events (map Enter [0..<K]) (start (make_semaphore concurrency self_concurrency) K) = Some s
              \<and> in_flight s = K"
      unfolding sem by blast
  }
qed

text \<open>
  Limit 2 over 5 units: two units enter, a third cannot; one leaves and then the third
  enters. Two units are in flight at the end.
\<close>

theorem admission_limit_bounds_in_flight_witness:
  "0 < admission_limit (Some 2) 0
   \<and> run_events [Enter 0, Enter 3, Enter 1] (start (make_semaphore (Some 2) 0) 5) = None
   \<and> run_events [Enter 0, Enter 3, Leave 0, Enter 1] (start (make_semaphore (Some 2) 0) 5)
       = Some \<lparr>permits = Some 0, phases = [Finished, Working, Pending, Working, Pending]\<rparr>
   \<and> int (in_flight \<lparr>permits = Some 0, phases = [Finished, Working, Pending, Working, Pending]\<rparr>)
       \<le> admission_limit (Some 2) 0
   \<and> admission_limit None 0 = 0
   \<and> (\<exists>s. run_events (map Enter [0..<5]) (start (make_semaphore None 0) 5) = Some s \<and> in_flight s = 5)"
proof -
  have lim: "0 < admission_limit (Some 2) 0" by (simp add: admission_limit_def)
  have blocked: "run_events [Enter 0, Enter 3, Enter 1] (start (make_semaphore (Some 2) 0) 5) = None"
    by code_simp
  have run: "run_events [Enter 0, Enter 3, Leave 0, Enter 1] (start (make_semaphore (Some 2) 0) 5)
       = Some \<lparr>permits = Some 0, phases = [Finished, Working, Pending, Working, Pending]\<rparr>"
    by code_simp
  have zero: "admission_limit None 0 = 0" by (simp add: admission_limit_def)
  from admission_limit_bounds_in_flight [of "Some 2" 0 "[Enter 0, Enter 3, Leave 0, Enter 1]" 5
      "\<lparr>permits = Some 0, phases = [Finished, Working, Pending, Working, Pending]\<rparr>"] lim run
  have a: "int (in_flight \<lparr>permits = Some 0, phases = [Finished, Working, Pending, Working, Pending]\<rparr>)
       \<le> admission_limit (Some 2) 0"
    by blast
  from admission_limit_bounds_in_flight [of None 0 "[]" 5 "start None 5"] zero
  have b: "\<exists>s. run_events (map Enter [0..<5]) (start (make_semaphore None 0) 5) = Some s \<and> in_flight s = 5"
    by blast
  from lim blocked run a zero b show ?thesis by blast
qed

section \<open>Properties of the continuation controller\<close>

lemma replace_char_empty: "replace [c] [] s = filter (\<lambda>x. x \<noteq> c) s"
  by (induction s) simp_all

lemma compact_of_spec: "compact_of s = spec_compacted s"
proof -
  have "compact_of s = filter (\<lambda>x. x \<noteq> 45) (filter (\<lambda>x. x \<noteq> 32) s)"
    by (simp add: compact_of_def py_def replace_char_empty)
  then show ?thesis by (simp add: spec_compacted_def conj_commute)
qed

lemma ratio_at_least_9:
  assumes "0 < b"
  shows "9 \<le> a div max 1 b \<longleftrightarrow> 9 \<le> real a / real b"
proof -
  from assms have m: "max 1 b = b" by simp
  have "9 \<le> a div b \<longleftrightarrow> 9 * b \<le> a"
    using assms by (simp add: less_eq_div_iff_mult_less_eq)
  also have "\<dots> \<longleftrightarrow> 9 * real b \<le> real a"
    by (metis of_nat_le_iff of_nat_mult of_nat_numeral)
  also have "\<dots> \<longleftrightarrow> 9 \<le> real a / real b"
    using assms by (simp add: pos_le_divide_eq)
  finally show ?thesis by (simp only: m)
qed

lemma guard_spec:
  "(length (compact_of t) = 0 \<or> length (collapse_runs t) div max 1 (length (compact_of t)) \<ge> 9)
     \<longleftrightarrow> spec_degenerate t"
proof (cases "length (spec_compacted t) = 0")
  case True
  then show ?thesis by (simp add: compact_of_spec spec_degenerate_def)
next
  case False
  then have "0 < length (spec_compacted t)" by simp
  from ratio_at_least_9 [OF this, of "length (collapse_runs t)"] False
  show ?thesis by (simp only: compact_of_spec spec_degenerate_def)
qed


lemma completion_parser_continue:
  "\<not> spec_degenerate (strip first) \<Longrightarrow>
     completion_parser tok maxc llm prompt first g
       = (case continue_loop tok maxc llm 0 (collapse_runs (strip first))
                [(User, prompt), (Assistant, first)] [] g of
            (Inl err, reqs, g') \<Rightarrow> (Inl err, reqs, g')
          | (Inr history', reqs, g') \<Rightarrow> (Inr (assemble history'), reqs, g'))"
  unfolding completion_parser_def Let_def using guard_spec [of "strip first"] by simp

text \<open>The history after the replies \<open>rs\<close> have come, each after a continuation request.\<close>

lemma assemble_append: "assemble (h1 @ h2) = assemble h1 @ assemble h2"
  by (simp add: assemble_def)

lemma continue_loop_script:
  assumes "int (turns + length rest) \<le> maxc"
    and "\<forall>k < length rest. \<not> is_complete tok ((cur # map strip rest) ! k)"
    and "is_complete tok (last (cur # map strip rest))"
    and "\<forall>t \<in> set (cur # map strip rest). lower t \<noteq> py ''completed.''"
  shows "\<exists>reqs'. continue_loop tok maxc scripted turns cur history reqs (map Inr rest @ extra)
           = (Inr (history @ concat (map (\<lambda>r. [(User, continue_message), (Assistant, r)]) rest)),
              reqs @ reqs', extra)
         \<and> length reqs' = length rest"
  using assms
proof (induction rest arbitrary: turns cur history reqs)
  case Nil
  then have "\<not> needs_continuation tok cur" by (simp add: needs_continuation_def)
  then show ?case by (subst continue_loop.simps) simp
next
  case (Cons r rest)
  let ?h1 = "history @ [(User, continue_message)]"
  from Cons.prems(2) have "\<not> is_complete tok ((cur # map strip (r # rest)) ! 0)" by blast
  with Cons.prems(4) have need: "needs_continuation tok cur"
    by (simp add: needs_continuation_def)
  from Cons.prems(1) have turns: "\<not> int turns \<ge> maxc" by simp
  from Cons.prems(4) have ns: "lower (strip r) \<noteq> py ''completed.''" by simp
  have step: "continue_loop tok maxc scripted turns cur history reqs (map Inr (r # rest) @ extra)
          = continue_loop tok maxc scripted (turns + 1) (strip r) (?h1 @ [(Assistant, r)])
              (reqs @ [?h1]) (map Inr rest @ extra)"
    using need turns ns by (subst continue_loop.simps) (simp add: scripted_def)
  have "\<exists>reqs'. continue_loop tok maxc scripted (turns + 1) (strip r) (?h1 @ [(Assistant, r)])
              (reqs @ [?h1]) (map Inr rest @ extra)
           = (Inr ((?h1 @ [(Assistant, r)]) @ concat (map (\<lambda>r. [(User, continue_message), (Assistant, r)]) rest)),
              (reqs @ [?h1]) @ reqs', extra)
         \<and> length reqs' = length rest"
  proof (rule Cons.IH)
    show "int (turns + 1 + length rest) \<le> maxc" using Cons.prems(1) by simp
    show "\<forall>k<length rest. \<not> is_complete tok ((strip r # map strip rest) ! k)"
    proof (intro allI impI)
      fix k assume "k < length rest"
      then have "Suc k < length (r # rest)" by simp
      with Cons.prems(2) have "\<not> is_complete tok ((cur # map strip (r # rest)) ! Suc k)" by blast
      then show "\<not> is_complete tok ((strip r # map strip rest) ! k)" by simp
    qed
    show "is_complete tok (last (strip r # map strip rest))" using Cons.prems(3) by simp
    show "\<forall>t\<in>set (strip r # map strip rest). lower t \<noteq> py ''completed.''"
      using Cons.prems(4) by simp
  qed
  then obtain reqs' where r': "continue_loop tok maxc scripted (turns + 1) (strip r) (?h1 @ [(Assistant, r)])
              (reqs @ [?h1]) (map Inr rest @ extra)
           = (Inr ((?h1 @ [(Assistant, r)]) @ concat (map (\<lambda>r. [(User, continue_message), (Assistant, r)]) rest)),
              (reqs @ [?h1]) @ reqs', extra)" and len: "length reqs' = length rest"
    by blast
  have "continue_loop tok maxc scripted turns cur history reqs (map Inr (r # rest) @ extra)
           = (Inr (history @ concat (map (\<lambda>r. [(User, continue_message), (Assistant, r)]) (r # rest))),
              reqs @ (?h1 # reqs'), extra)"
    unfolding step r' by simp
  moreover have "length (?h1 # reqs') = length (r # rest)" using len by simp
  ultimately show ?case by blast
qed

lemma assemble_turns:
  "assemble (concat (map (\<lambda>r. [(User, m), (Assistant, r)]) rest)) = concat rest"
  by (induction rest) (simp_all add: assemble_def)

lemma search_run_short: "length s < n \<Longrightarrow> search_run c n s = None"
proof (induction s)
  case Nil
  then show ?case by simp
next
  case (Cons x xs)
  have "take n (x # xs) \<noteq> replicate n c"
  proof
    assume "take n (x # xs) = replicate n c"
    then have "length (take n (x # xs)) = length (replicate n c)" by (rule arg_cong)
    with Cons.prems show False by simp
  qed
  with Cons show ?case by simp
qed

lemma collapse_runs_short: "length s < 101 \<Longrightarrow> collapse_runs s = s"
  by (subst collapse_runs.simps) (simp add: search_run_short)

text \<open>
  C4 (amended). For every N with 1 \<le> N \<le> max_continuations + 1: when the first reply
  passes the degenerate-output check, the tested texts of replies 1 to N - 1 fail the
  completeness test, that of reply N passes it, and none is the sentinel, the controller
  issues exactly N - 1 continuation requests and hands to the repair step the
  concatenation of the N replies in order. (Here N - 1 is the length of \<open>rest\<close>.)
\<close>

theorem continuation_requests_and_assembly:
  assumes "\<not> spec_degenerate (strip first)"
    and "int (length rest) \<le> max_continuations"
    and "\<forall>k < length rest. \<not> is_complete tok (tested first rest ! k)"
    and "is_complete tok (last (tested first rest))"
    and "\<forall>t \<in> set (tested first rest). lower t \<noteq> py ''completed.''"
  shows "\<exists>reqs. completion_parser tok max_continuations scripted prompt first (map Inr rest @ extra)
                  = (Inr (concat (first # rest)), reqs, extra)
               \<and> length reqs = length rest"
proof -
  let ?h = "[(User, prompt), (Assistant, first)]"
  have "\<exists>reqs'. continue_loop tok max_continuations scripted 0 (collapse_runs (strip first)) ?h []
                    (map Inr rest @ extra)
           = (Inr (?h @ concat (map (\<lambda>r. [(User, continue_message), (Assistant, r)]) rest)),
              [] @ reqs', extra)
         \<and> length reqs' = length rest"
    using assms(2-5) unfolding tested_def by (intro continue_loop_script) simp_all
  then obtain reqs where loop: "continue_loop tok max_continuations scripted 0 (collapse_runs (strip first)) ?h []
                    (map Inr rest @ extra)
           = (Inr (?h @ concat (map (\<lambda>r. [(User, continue_message), (Assistant, r)]) rest)), reqs, extra)"
    and len: "length reqs = length rest"
    by auto
  have "assemble (?h @ concat (map (\<lambda>r. [(User, continue_message), (Assistant, r)]) rest))
          = concat (first # rest)"
    by (simp only: assemble_append assemble_turns) (simp add: assemble_def)
  with loop have "completion_parser tok max_continuations scripted prompt first (map Inr rest @ extra)
                  = (Inr (concat (first # rest)), reqs, extra)"
    by (simp add: completion_parser_continue [OF assms(1)])
  with len show ?thesis by blast
qed

lemma strip_a: "strip (py ''a'') = py ''a''" by (simp add: strip_def lstrip_def rstrip_def isspace_def py_def)

lemmas text_eval = strip_def lstrip_def rstrip_def isspace_def py_def lower_def lower_char_def
  is_complete_def heuristic_endings_def needs_continuation_def scripted_def suffix_to_prefix
  compact_of_def assemble_def

text \<open>
  Two incomplete replies and a complete one, with the default limit of 4: two
  continuation requests, and the three replies are concatenated.
\<close>

theorem continuation_requests_and_assembly_witness:
  "\<exists>reqs. completion_parser NoToken 4 scripted (py ''q'') (py ''One, '')
              (map Inr [py ''two, '', py ''three.''] @ [])
            = (Inr (py ''One, two, three.''), reqs, [])
          \<and> length reqs = 2"
proof -
  have s: "strip (py ''One, '') = py ''One,''" by (simp add: text_eval)
  have c: "collapse_runs (py ''One,'') = py ''One,''"
    by (rule collapse_runs_short) (simp add: py_def)
  have t: "tested (py ''One, '') [py ''two, '', py ''three.''] = [py ''One,'', py ''two,'', py ''three.'']"
    unfolding tested_def s c by (simp add: text_eval)
  have a1: "\<not> spec_degenerate (strip (py ''One, ''))"
    unfolding s spec_degenerate_def c by (simp add: spec_compacted_def py_def)
  have a2: "int (length [py ''two, '', py ''three.'']) \<le> 4" by simp
  have a3: "\<forall>k < length [py ''two, '', py ''three.''].
              \<not> is_complete NoToken (tested (py ''One, '') [py ''two, '', py ''three.''] ! k)"
  proof -
    have "\<not> is_complete NoToken (py ''One,'')" "\<not> is_complete NoToken (py ''two,'')"
      by (simp_all add: text_eval)
    then show ?thesis unfolding t by (simp add: less_Suc_eq)
  qed
  have a4: "is_complete NoToken (last (tested (py ''One, '') [py ''two, '', py ''three.'']))"
    unfolding t by (simp add: text_eval)
  have a5: "\<forall>t \<in> set (tested (py ''One, '') [py ''two, '', py ''three.'']). lower t \<noteq> py ''completed.''"
    unfolding t by (simp add: text_eval)
  from continuation_requests_and_assembly [OF a1 a2 a3 a4 a5, of "py ''q''" "[]"]
  show ?thesis by (simp add: py_def numeral_2_eq_2)
qed

text \<open>
  The claim without the bound and without the guard fails: five incomplete replies and a
  complete one exhaust the default limit of 4 continuations; and an empty first reply,
  which is incomplete, is refused by the degenerate-output check before any request.
\<close>

theorem continuation_limit_counterexample:
  "\<not> is_complete NoToken (py ''a'') \<and> \<not> is_complete NoToken (py ''b'')
   \<and> \<not> is_complete NoToken (py ''c'') \<and> \<not> is_complete NoToken (py ''d'')
   \<and> \<not> is_complete NoToken (py ''e'') \<and> is_complete NoToken (py ''f.'')
   \<and> fst (completion_parser NoToken 4 scripted (py ''q'') (py ''a'')
            (map Inr [py ''b'', py ''c'', py ''d'', py ''e'', py ''f.'']))
       = Inl ContinuationExhausted
   \<and> \<not> is_complete NoToken [] \<and> is_complete NoToken (py ''ok.'')
   \<and> completion_parser NoToken 4 scripted (py ''q'') [] (map Inr [py ''ok.''])
       = (Inl (DegenerateOutput 0), [], map Inr [py ''ok.''])"
proof -
  have i: "\<not> is_complete NoToken (py ''a'')" "\<not> is_complete NoToken (py ''b'')"
    "\<not> is_complete NoToken (py ''c'')" "\<not> is_complete NoToken (py ''d'')"
    "\<not> is_complete NoToken (py ''e'')" "is_complete NoToken (py ''f.'')"
    "\<not> is_complete NoToken []" "is_complete NoToken (py ''ok.'')"
    by (simp_all add: text_eval)
  have s: "strip (py ''a'') = py ''a''" by (simp add: text_eval)
  have c: "collapse_runs (py ''a'') = py ''a''"
    by (rule collapse_runs_short) (simp add: py_def)
  have k: "compact_of (py ''a'') = py ''a''" by (simp add: text_eval)
  have loop: "fst (continue_loop NoToken 4 scripted 0 (py ''a'') [(User, py ''q''), (Assistant, py ''a'')] []
                 (map Inr [py ''b'', py ''c'', py ''d'', py ''e'', py ''f.'']))
              = Inl ContinuationExhausted"
    by (simp add: continue_loop.simps text_eval)
  have a: "fst (completion_parser NoToken 4 scripted (py ''q'') (py ''a'')
            (map Inr [py ''b'', py ''c'', py ''d'', py ''e'', py ''f.'']))
       = Inl ContinuationExhausted"
    unfolding completion_parser_def Let_def s c k using loop
    by (auto simp add: py_def split: prod.splits sum.splits)
  have s0: "strip [] = []" by (simp add: text_eval)
  have c0: "collapse_runs [] = []" by (rule collapse_runs_short) simp
  have k0: "compact_of [] = []" by (simp add: text_eval)
  have b: "completion_parser NoToken 4 scripted (py ''q'') [] (map Inr [py ''ok.''])
       = (Inl (DegenerateOutput 0), [], map Inr [py ''ok.''])"
    unfolding completion_parser_def Let_def s0 c0 k0 by simp
  from i a b show ?thesis by blast
qed




lemma continue_loop_never_degenerate:
  "fst (continue_loop tok maxc llm turns cur history reqs g) \<noteq> Inl (DegenerateOutput ratio)"
proof (induction tok maxc llm turns cur history reqs g rule: continue_loop.induct)
  case (1 tok maxc llm turns cur history reqs g)
  show ?case
  proof (cases "needs_continuation tok cur \<and> \<not> int turns \<ge> maxc")
    case False
    then show ?thesis by (subst continue_loop.simps) auto
  next
    case True
    let ?h1 = "history @ [(User, continue_message)]"
    obtain r g' where llm: "llm g ?h1 = (r, g')" by (cases "llm g ?h1")
    show ?thesis
    proof (cases r)
      case (Inl e)
      with True llm show ?thesis by (subst continue_loop.simps) (simp add: Let_def)
    next
      case (Inr next_chunk)
      show ?thesis
      proof (cases "lower (strip next_chunk) \<noteq> py ''completed.''")
        case False
        with True llm Inr show ?thesis by (subst continue_loop.simps) (simp add: Let_def)
      next
        case ns: True
        from True llm Inr ns
        have "fst (continue_loop tok maxc llm (turns + 1) (strip next_chunk)
                     (?h1 @ [(Assistant, next_chunk)]) (reqs @ [?h1]) g')
                \<noteq> Inl (DegenerateOutput ratio)"
          by (intro "1.IH") simp_all
        with True llm Inr ns show ?thesis by (subst continue_loop.simps) (simp add: Let_def)
      qed
    qed
  qed
qed

text \<open>
  C10 (amended). The degenerate-output check is applied to the first reply only: a call
  fails with the degenerate-output error only if its first reply is degenerate; the
  continuation loop never raises that error; and every reply to a continuation request
  other than the sentinel, whatever its content, is appended to the history and becomes
  the text on which the loop runs its completeness test next.
\<close>

theorem degenerate_check_only_on_first_reply:
  "(fst (completion_parser tok max_continuations llm prompt first g) = Inl (DegenerateOutput ratio)
      \<longrightarrow> spec_degenerate (strip first))
   \<and> fst (continue_loop tok max_continuations llm turns cur history reqs g)
       \<noteq> Inl (DegenerateOutput ratio)
   \<and> (needs_continuation tok cur \<and> int turns < max_continuations
       \<and> llm g (history @ [(User, continue_message)]) = (Inr next_chunk, g')
       \<and> lower (strip next_chunk) \<noteq> py ''completed.''
      \<longrightarrow> continue_loop tok max_continuations llm turns cur history reqs g
          = continue_loop tok max_continuations llm (turns + 1) (strip next_chunk)
              (history @ [(User, continue_message), (Assistant, next_chunk)])
              (reqs @ [history @ [(User, continue_message)]]) g')"
proof (intro conjI impI)
  show "fst (continue_loop tok max_continuations llm turns cur history reqs g)
          \<noteq> Inl (DegenerateOutput ratio)"
    by (rule continue_loop_never_degenerate)
  {
    assume f: "fst (completion_parser tok max_continuations llm prompt first g) = Inl (DegenerateOutput ratio)"
    show "spec_degenerate (strip first)"
    proof (rule ccontr)
      assume n: "\<not> spec_degenerate (strip first)"
      obtain r q g1 where l: "continue_loop tok max_continuations llm 0 (collapse_runs (strip first))
                [(User, prompt), (Assistant, first)] [] g = (r, q, g1)"
        by (metis prod_cases3)
      with continue_loop_never_degenerate [of tok max_continuations llm 0 "collapse_runs (strip first)"
          "[(User, prompt), (Assistant, first)]" "[]" g ratio]
      have "r \<noteq> Inl (DegenerateOutput ratio)" by simp
      with f l show False
        by (cases r) (simp_all add: completion_parser_continue [OF n])
    qed
  }
  {
    assume "needs_continuation tok cur \<and> int turns < max_continuations
       \<and> llm g (history @ [(User, continue_message)]) = (Inr next_chunk, g')
       \<and> lower (strip next_chunk) \<noteq> py ''completed.''"
    then show "continue_loop tok max_continuations llm turns cur history reqs g
          = continue_loop tok max_continuations llm (turns + 1) (strip next_chunk)
              (history @ [(User, continue_message), (Assistant, next_chunk)])
              (reqs @ [history @ [(User, continue_message)]]) g'"
      by (subst continue_loop.simps) (simp add: Let_def)
  }
qed

text \<open>
  A first reply of spaces is refused; an incomplete first reply followed by a reply of
  spaces and then by a complete one goes through, and the spaces are part of the
  assembled text.
\<close>

theorem degenerate_check_only_on_first_reply_witness:
  "spec_degenerate (strip (py ''    ''))
   \<and> continue_loop NoToken 4 scripted 0 (py ''abc'') [(User, py ''q''), (Assistant, py ''abc'')] []
        [Inr (py ''   ''), Inr (py ''done.'')]
     = continue_loop NoToken 4 scripted (0 + 1) (strip (py ''   ''))
        ([(User, py ''q''), (Assistant, py ''abc'')] @ [(User, continue_message), (Assistant, py ''   '')])
        ([] @ [[(User, py ''q''), (Assistant, py ''abc'')] @ [(User, continue_message)]])
        [Inr (py ''done.'')]
   \<and> fst (completion_parser NoToken 4 scripted (py ''q'') (py ''abc'')
            [Inr (py ''   ''), Inr (py ''done.'')])
     = Inr (py ''abc   done.'')"
proof -
  note inst = degenerate_check_only_on_first_reply [of NoToken 4 scripted "py ''q''" "py ''    ''"
      "[Inr (py ''   ''), Inr (py ''done.'')]" 0 0 "py ''abc''"
      "[(User, py ''q''), (Assistant, py ''abc'')]" "[]" "py ''   ''" "[Inr (py ''done.'')]"]
  have s1: "strip (py ''    '') = []" by (simp add: text_eval)
  have c1: "collapse_runs [] = []" by (rule collapse_runs_short) simp
  have k1: "compact_of [] = []" by (simp add: text_eval)
  have "fst (completion_parser NoToken 4 scripted (py ''q'') (py ''    '')
               [Inr (py ''   ''), Inr (py ''done.'')]) = Inl (DegenerateOutput 0)"
    unfolding completion_parser_def Let_def s1 c1 k1 by simp
  with inst have a: "spec_degenerate (strip (py ''    ''))" by blast
  have "needs_continuation NoToken (py ''abc'') \<and> int 0 < 4
       \<and> scripted [Inr (py ''   ''), Inr (py ''done.'')]
            ([(User, py ''q''), (Assistant, py ''abc'')] @ [(User, continue_message)])
          = (Inr (py ''   ''), [Inr (py ''done.'')])
       \<and> lower (strip (py ''   '')) \<noteq> py ''completed.''"
    by (simp add: text_eval)
  with inst have b: "continue_loop NoToken 4 scripted 0 (py ''abc'') [(User, py ''q''), (Assistant, py ''abc'')] []
        [Inr (py ''   ''), Inr (py ''done.'')]
     = continue_loop NoToken 4 scripted (0 + 1) (strip (py ''   ''))
        ([(User, py ''q''), (Assistant, py ''abc'')] @ [(User, continue_message), (Assistant, py ''   '')])
        ([] @ [[(User, py ''q''), (Assistant, py ''abc'')] @ [(User, continue_message)]])
        [Inr (py ''done.'')]"
    by blast
  have s: "strip (py ''abc'') = py ''abc''" by (simp add: text_eval)
  have c: "collapse_runs (py ''abc'') = py ''abc''"
    by (rule collapse_runs_short) (simp add: py_def)
  have k: "compact_of (py ''abc'') = py ''abc''" by (simp add: text_eval)
  have loop: "fst (continue_loop NoToken 4 scripted 0 (py ''abc'')
                 [(User, py ''q''), (Assistant, py ''abc'')] [] [Inr (py ''   ''), Inr (py ''done.'')])
              = Inr [(User, py ''q''), (Assistant, py ''abc''), (User, continue_message),
                      (Assistant, py ''   ''), (User, continue_message), (Assistant, py ''done.'')]"
    by (simp add: continue_loop.simps text_eval Let_def)
  have d: "fst (completion_parser NoToken 4 scripted (py ''q'') (py ''abc'')
            [Inr (py ''   ''), Inr (py ''done.'')])
     = Inr (py ''abc   done.'')"
    unfolding completion_parser_def Let_def s c k using loop
    by (auto simp add: text_eval split: prod.splits sum.splits)
  from a b d show ?thesis by blast
qed

text \<open>
  Not every reply to a continuation request is appended: the sentinel is dropped. And a
  reply of spaces can end the call, not by the degenerate-output check but as an
  incomplete reply at the continuation limit (here a limit of 1).
\<close>

theorem continuation_reply_counterexample:
  "completion_parser NoToken 4 scripted (py ''q'') (py ''abc'') [Inr (py ''completed.'')]
     = (Inr (py ''abc''), [[(User, py ''q''), (Assistant, py ''abc''), (User, continue_message)]], [])
   \<and> completion_parser NoToken 1 scripted (py ''q'') (py ''abc'') [Inr (py ''   '')]
     = (Inl ContinuationExhausted,
        [[(User, py ''q''), (Assistant, py ''abc''), (User, continue_message)]], [])"
proof -
  have s: "strip (py ''abc'') = py ''abc''" by (simp add: text_eval)
  have c: "collapse_runs (py ''abc'') = py ''abc''"
    by (rule collapse_runs_short) (simp add: py_def)
  have k: "compact_of (py ''abc'') = py ''abc''" by (simp add: text_eval)
  have l1: "continue_loop NoToken 4 scripted 0 (py ''abc'')
                 [(User, py ''q''), (Assistant, py ''abc'')] [] [Inr (py ''completed.'')]
              = (Inr [(User, py ''q''), (Assistant, py ''abc''), (User, continue_message)],
                 [[(User, py ''q''), (Assistant, py ''abc''), (User, continue_message)]], [])"
    by (simp add: continue_loop.simps text_eval Let_def)
  have l2: "continue_loop NoToken 1 scripted 0 (py ''abc'')
                 [(User, py ''q''), (Assistant, py ''abc'')] [] [Inr (py ''   '')]
              = (Inl ContinuationExhausted,
                 [[(User, py ''q''), (Assistant, py ''abc''), (User, continue_message)]], [])"
    by (simp add: continue_loop.simps text_eval Let_def)
  have a: "completion_parser NoToken 4 scripted (py ''q'') (py ''abc'') [Inr (py ''completed.'')]
     = (Inr (py ''abc''), [[(User, py ''q''), (Assistant, py ''abc''), (User, continue_message)]], [])"
    unfolding completion_parser_def Let_def s c k l1 by (simp add: text_eval)
  have b: "completion_parser NoToken 1 scripted (py ''q'') (py ''abc'') [Inr (py ''   '')]
     = (Inl ContinuationExhausted,
        [[(User, py ''q''), (Assistant, py ''abc''), (User, continue_message)]], [])"
    unfolding completion_parser_def Let_def s c k l2 by (simp add: text_eval)
  from a b show ?thesis by blast
qed

section \<open>Properties of the extractor\<close>

subsection \<open>Coercion\<close>


lemma rstrip_decomp: "\<exists>ws. t = rstrip t @ ws \<and> (\<forall>c \<in> set ws. isspace c)"
proof -
  have "rev (takeWhile isspace (rev t) @ dropWhile isspace (rev t)) = rev (rev t)"
    by (simp only: takeWhile_dropWhile_id)
  then have "rev (dropWhile isspace (rev t)) @ rev (takeWhile isspace (rev t)) = t"
    by (simp only: rev_append rev_rev_ident)
  then have "t = rstrip t @ rev (takeWhile isspace (rev t))"
    by (simp only: rstrip_def)
  moreover have "\<forall>c \<in> set (rev (takeWhile isspace (rev t))). isspace c"
    by (auto dest: set_takeWhileD)
  ultimately show ?thesis by blast
qed

lemma rstrip_last: "rstrip t \<noteq> [] \<Longrightarrow> \<not> isspace (last (rstrip t))"
proof -
  assume "rstrip t \<noteq> []"
  then have ne: "dropWhile isspace (rev t) \<noteq> []" by (simp add: rstrip_def)
  then have "\<not> isspace (hd (dropWhile isspace (rev t)))" by (rule hd_dropWhile)
  with ne show ?thesis by (simp add: rstrip_def last_rev)
qed

lemma strip_last: "strip s \<noteq> [] \<Longrightarrow> \<not> isspace (last (strip s))"
  unfolding strip_def by (rule rstrip_last)

lemma rstrip_id: "t = [] \<or> \<not> isspace (last t) \<Longrightarrow> rstrip t = t"
  by (cases t rule: rev_cases) (auto simp: rstrip_def)

lemma lstrip_id: "t = [] \<or> \<not> isspace (hd t) \<Longrightarrow> lstrip t = t"
  by (cases t) (auto simp: lstrip_def)

lemma strip_id: "t = [] \<or> (\<not> isspace (hd t) \<and> \<not> isspace (last t)) \<Longrightarrow> strip t = t"
  by (auto simp: strip_def lstrip_id rstrip_id)

lemma rstrip_hd: "rstrip t \<noteq> [] \<Longrightarrow> hd (rstrip t) = hd t"
proof -
  assume ne: "rstrip t \<noteq> []"
  from rstrip_decomp [of t] obtain ws where "t = rstrip t @ ws" by blast
  then have "hd t = hd (rstrip t @ ws)" by simp
  with ne show ?thesis by simp
qed

lemma strip_hd: "strip s \<noteq> [] \<Longrightarrow> \<not> isspace (hd (strip s))"
proof -
  assume ne: "strip s \<noteq> []"
  then have "hd (strip s) = hd (lstrip s)" unfolding strip_def by (rule rstrip_hd)
  moreover from ne have "lstrip s \<noteq> []"
    by (auto simp: strip_def rstrip_def)
  then have "\<not> isspace (hd (lstrip s))"
    unfolding lstrip_def by (rule hd_dropWhile)
  ultimately show ?thesis by simp
qed

lemma strip_strip: "strip (strip s) = strip s"
  by (rule strip_id) (use strip_hd strip_last in blast)













lemmas table_eval = text_eval lines_text_def join_def ex_schema_def
  remove_markdown_def row_record_def convert_cell_def isdigit_def isdigit_char_def decimal_digit_def
  int_of_digits_def decval_def truthy_def float_match_def float_value_def
  sanitize_table_def rfind_char_def piped_def divider_fullmatch_def divider_like_def
  validate_line_def is_keyword_row_def keyword_rows_def smart_pipe_replace_def
  row_break_match_def strip_pipes_def table_records_def cols_of_def itemized_def
  first_itemized_def merge_into_def merge_rows.simps md_table_to_pydantic_list_def blocks_of_def
  table_lines_def Let_def



text \<open>
  A superscript two passes \<open>isdigit\<close> and is refused by \<open>int()\<close>: the extraction ends
  with that error.
\<close>

lemma superscript_digit_aborts:
  "md_table_to_pydantic_list True [(py ''n'', TInt)] (Some 0)
       (lines_text [py ''| n |'', py ''|---|'', [124, 32, 178, 32, 124]])
     = Inl (InvalidIntLiteral [178])"
  by (simp add: table_eval)

subsection \<open>The null result\<close>







text \<open>
  A header and a divider without data rows: what comes back is the bare empty list of
  \<open>return []\<close>, not a pair with the defective lines.
\<close>

lemma header_only_returns_bare_list:
  "md_table_to_pydantic_list True ex_schema (Some 0)
       (lines_text [py ''| name | count | flag |'', py ''|---|---|---|''])
     = Inr EmptyList"
  by (simp add: table_eval)

subsection \<open>Splitting and joining\<close>

lemma split_nonempty: "split c s \<noteq> []"
  by (induction s) (auto split: list.splits)

lemma split_pieces: "\<forall>x \<in> set (split c s). c \<notin> set x"
proof (induction s)
  case Nil
  then show ?case by simp
next
  case (Cons a s)
  show ?case
  proof (cases "a = c")
    case True
    with Cons show ?thesis by simp
  next
    case False
    obtain h t where ht: "split c s = h # t"
      using split_nonempty [of c s] by (cases "split c s") auto
    with Cons False show ?thesis by simp
  qed
qed

lemma split_no_sep: "c \<notin> set s \<Longrightarrow> split c s = [s]"
  by (induction s) auto

lemma split_append_sep:
  "c \<notin> set x \<Longrightarrow> split c (x @ c # s) = x # split c s"
  by (induction x) auto

lemma split_join:
  assumes "xs \<noteq> []" and "\<forall>x \<in> set xs. c \<notin> set x"
  shows "split c (join [c] xs) = xs"
  using assms
proof (induction xs)
  case Nil
  then show ?case by simp
next
  case (Cons x xs)
  show ?case
  proof (cases xs)
    case Nil
    with Cons.prems show ?thesis by (simp add: join_def split_no_sep)
  next
    case (Cons y ys)
    then have j: "join [c] (x # xs) = x @ c # join [c] xs"
      by (simp add: join_def)
    from Cons Cons.prems Cons.IH have "split c (join [c] xs) = xs" by simp
    with j Cons.prems show ?thesis by (simp add: split_append_sep)
  qed
qed

lemma rstrip_subset: "set (rstrip x) \<subseteq> set x"
  by (auto simp: rstrip_def dest: set_dropWhileD)

lemma rstrip_rstrip: "rstrip (rstrip x) = rstrip x"
  by (rule rstrip_id) (use rstrip_last in blast)

lemma cols_of_no_pipe: "\<forall>x \<in> set (cols_of row). 124 \<notin> set x"
  using split_pieces [of 124 row] rstrip_subset by (fastforce simp: cols_of_def)

lemma length_cols_of: "length (cols_of row) = length (split 124 row)"
  by (simp add: cols_of_def)

lemma rstrip_cols_of: "j < length (cols_of row) \<Longrightarrow> rstrip (cols_of row ! j) = cols_of row ! j"
  by (simp add: cols_of_def rstrip_rstrip)

subsection \<open>Merging itemized rows\<close>

lemma first_index_none: "first_index P xs = None \<longleftrightarrow> (\<forall>x \<in> set xs. \<not> P x)"
  by (induction xs) auto

lemma first_index_append:
  "\<forall>x \<in> set xs. \<not> P x \<Longrightarrow> P y \<Longrightarrow> first_index P (xs @ y # ys) = Some (length xs)"
  by (induction xs) auto

lemma first_itemized_none:
  "first_itemized cid rows = None \<longleftrightarrow> (\<forall>x \<in> set (tl rows). \<not> itemized cid x)"
  by (cases rows) (simp_all add: first_itemized_def first_index_none)

lemma first_itemized_at:
  assumes "\<forall>x \<in> set (tl (pre @ [p])). \<not> itemized cid x" and "itemized cid r"
  shows "first_itemized cid (pre @ p # r # rs) = Some (Suc (length pre))"
proof (cases pre)
  case Nil
  with assms show ?thesis by (simp add: first_itemized_def)
next
  case (Cons a pre')
  with assms have "\<forall>x \<in> set (pre' @ [p]). \<not> itemized cid x" by simp
  from first_index_append [OF this assms(2), of rs]
  show ?thesis using Cons by (simp add: first_itemized_def)
qed

lemma merged_row_cols:
  assumes "length (split 124 p) = n" "length (split 124 r) = n" "n \<noteq> 0"
  shows "cols_of (merged_row cid p r)
           = map (\<lambda>j. if j = cid then cols_of p ! j
                       else rstrip (cols_of p ! j @ py '' <br> '' @ cols_of r ! j)) [0..<n]"
proof -
  let ?new = "map (\<lambda>j. if j = cid then cols_of p ! j
                 else cols_of p ! j @ py '' <br> '' @ cols_of r ! j) [0..<length (cols_of p)]"
  have len: "length (cols_of p) = n" "length (cols_of r) = n"
    using assms by (simp_all add: length_cols_of)
  have ne: "?new \<noteq> []" using len assms(3) by simp
  have nopipe: "\<forall>x \<in> set ?new. 124 \<notin> set x"
  proof
    fix x assume "x \<in> set ?new"
    then obtain j where j: "j < n" and x: "x = (if j = cid then cols_of p ! j
                 else cols_of p ! j @ py '' <br> '' @ cols_of r ! j)"
      using len by auto
    from j len have "cols_of p ! j \<in> set (cols_of p)" "cols_of r ! j \<in> set (cols_of r)" by simp_all
    with cols_of_no_pipe have "124 \<notin> set (cols_of p ! j)" "124 \<notin> set (cols_of r ! j)" by blast+
    with x show "124 \<notin> set x" by (cases "j = cid") (simp_all add: py_def)
  qed
  have sj: "split 124 (join [124] ?new) = ?new"
    using ne nopipe by (rule split_join)
  have "cols_of (merged_row cid p r) = map rstrip (split 124 (join [124] ?new))"
    unfolding merged_row_def by (rule cols_of_def)
  also have "\<dots> = map rstrip ?new"
    by (simp only: sj)
  also have "\<dots> = map (\<lambda>j. if j = cid then cols_of p ! j
                       else rstrip (cols_of p ! j @ py '' <br> '' @ cols_of r ! j)) [0..<n]"
    using len by (auto simp: rstrip_cols_of)
  finally show ?thesis .
qed

lemma merged_row_length:
  assumes "length (split 124 p) = n" "length (split 124 r) = n" "n \<noteq> 0"
  shows "length (split 124 (merged_row cid p r)) = n"
  using merged_row_cols [OF assms, of cid] length_cols_of [of "merged_row cid p r"] by simp

lemma merged_row_itemized:
  assumes "length (split 124 p) = n" "length (split 124 r) = n" "cid < n"
  shows "itemized cid (merged_row cid p r) \<longleftrightarrow> itemized cid p"
proof -
  from assms have "n \<noteq> 0" by simp
  from merged_row_cols [OF assms(1,2) this, of cid] assms(3)
  have "length (cols_of (merged_row cid p r)) = n" "cols_of (merged_row cid p r) ! cid = cols_of p ! cid"
    by simp_all
  with assms show ?thesis by (simp add: itemized_def length_cols_of)
qed

lemma merge_into_merged_row:
  assumes "length (split 124 p) = n" "length (split 124 r) = n"
  shows "merge_into cid p r = Inr (merged_row cid p r)"
proof -
  have len: "length (cols_of p) = n" "length (cols_of r) = n"
    using assms by (simp_all add: length_cols_of)
  have "\<not> list_ex (\<lambda>j. j \<noteq> cid \<and> \<not> j < length (cols_of r)) [0..<length (cols_of p)]"
    using len by (simp add: list_ex_iff)
  moreover have "map (\<lambda>(j, parent_col). if j \<noteq> cid then parent_col @ py '' <br> '' @ cols_of r ! j
                                           else parent_col) (enumerate 0 (cols_of p))
       = map (\<lambda>j. if j = cid then cols_of p ! j
                 else cols_of p ! j @ py '' <br> '' @ cols_of r ! j) [0..<length (cols_of p)]"
    by (rule nth_equalityI) (simp_all add: nth_enumerate_eq)
  ultimately show ?thesis
    by (simp add: merge_into_def merged_row_def Let_def)
qed

lemma ends_with_two_itemized_iff:
  "ends_with_two_itemized cid rows
     \<longleftrightarrow> (\<exists>xs a b. rows = xs @ [a, b] \<and> xs \<noteq> [] \<and> itemized cid a \<and> itemized cid b)"
proof
  assume e: "ends_with_two_itemized cid rows"
  then have len: "3 \<le> length rows" by (simp add: ends_with_two_itemized_def)
  then obtain ys b where r1: "rows = ys @ [b]" by (cases rows rule: rev_cases) auto
  with len obtain xs a where r2: "ys = xs @ [a]" by (cases ys rule: rev_cases) auto
  from r1 r2 have rows: "rows = xs @ [a, b]" by simp
  with len have "xs \<noteq> []" by auto
  moreover from rows have "rows ! (length rows - 2) = a" "last rows = b"
    by (simp_all add: nth_append)
  ultimately show "\<exists>xs a b. rows = xs @ [a, b] \<and> xs \<noteq> [] \<and> itemized cid a \<and> itemized cid b"
    using e rows by (auto simp: ends_with_two_itemized_def)
next
  assume "\<exists>xs a b. rows = xs @ [a, b] \<and> xs \<noteq> [] \<and> itemized cid a \<and> itemized cid b"
  then obtain xs a b where rows: "rows = xs @ [a, b]" and ne: "xs \<noteq> []"
    and ab: "itemized cid a" "itemized cid b"
    by blast
  from rows have "rows ! (length rows - 2) = a" "last rows = b"
    by (simp_all add: nth_append)
  moreover from rows ne have "3 \<le> length rows" by (cases xs) simp_all
  ultimately show "ends_with_two_itemized cid rows"
    using ab by (simp add: ends_with_two_itemized_def)
qed

lemma merge_rows_absorb:
  assumes "\<forall>x \<in> set (pre @ p # rs). length (split 124 x) = n" and "cid < n"
    and "\<forall>x \<in> set (tl (pre @ [p])). \<not> itemized cid x"
    and "\<not> ends_with_two_itemized cid (pre @ p # rs)"
  shows "merge_rows cid (pre @ p # rs) = Inr (pre @ absorb cid p rs)"
  using assms
proof (induction rs arbitrary: pre p)
  case Nil
  have "first_itemized cid (pre @ [p]) = None"
    using Nil.prems(3) by (simp add: first_itemized_none)
  then show ?case by (subst merge_rows.simps) simp
next
  case (Cons r rs)
  have n0: "n \<noteq> 0" using Cons.prems(2) by simp
  have lp: "length (split 124 p) = n" and lr: "length (split 124 r) = n"
    using Cons.prems(1) by simp_all
  show ?case
  proof (cases "itemized cid r")
    case False
    have "merge_rows cid ((pre @ [p]) @ r # rs) = Inr ((pre @ [p]) @ absorb cid r rs)"
    proof (rule Cons.IH)
      show "\<forall>x\<in>set ((pre @ [p]) @ r # rs). length (split 124 x) = n"
        using Cons.prems(1) by simp
      show "cid < n" by (rule Cons.prems(2))
      show "\<forall>x\<in>set (tl ((pre @ [p]) @ [r])). \<not> itemized cid x"
        using Cons.prems(3) False by (cases pre) simp_all
      show "\<not> ends_with_two_itemized cid ((pre @ [p]) @ r # rs)"
        using Cons.prems(4) by simp
    qed
    with False show ?thesis by simp
  next
    case True
    let ?m = "merged_row cid p r"
    let ?rows = "pre @ p # r # rs"
    have fi: "first_itemized cid ?rows = Some (Suc (length pre))"
      using Cons.prems(3) True by (rule first_itemized_at)
    have mi: "merge_into cid (?rows ! (Suc (length pre) - 1)) (?rows ! Suc (length pre)) = Inr ?m"
      using merge_into_merged_row [OF lp lr, of cid] by (simp add: nth_append)
    have rows': "take (Suc (length pre) - 1) ?rows @ [?m] @ drop (Suc (length pre) + 1) ?rows
                   = pre @ ?m # rs"
      by simp
    have lm: "length (split 124 ?m) = n"
      using lp lr n0 by (rule merged_row_length)
    have im: "itemized cid ?m \<longleftrightarrow> itemized cid p"
      using lp lr Cons.prems(2) by (rule merged_row_itemized)
    have clean': "\<forall>x \<in> set (tl (pre @ [?m])). \<not> itemized cid x"
      using Cons.prems(3) im by (cases pre) simp_all
    have step: "merge_rows cid ?rows
                  = (if int (Suc (length pre)) = int (length (pre @ ?m # rs)) - 1 then Inr (pre @ ?m # rs)
                     else merge_rows cid (pre @ ?m # rs))"
      by (subst merge_rows.simps) (simp only: fi mi rows' Let_def option.case sum.case, simp)
    show ?thesis
    proof (cases "length rs = 1")
      case one: True
      then obtain y where rs: "rs = [y]" by (cases rs) auto
      have "\<not> itemized cid y"
      proof
        assume "itemized cid y"
        with True rs have "\<exists>xs a b. ?rows = xs @ [a, b] \<and> xs \<noteq> [] \<and> itemized cid a \<and> itemized cid b"
          by (intro exI [of _ "pre @ [p]"] exI [of _ r] exI [of _ y]) simp
        then have "ends_with_two_itemized cid ?rows" by (simp only: ends_with_two_itemized_iff)
        with Cons.prems(4) show False by simp
      qed
      with True rs have "absorb cid p (r # rs) = [?m, y]" by simp
      moreover from step rs have "merge_rows cid ?rows = Inr (pre @ [?m, y])" by simp
      ultimately show ?thesis by simp
    next
      case more: False
      have "merge_rows cid (pre @ ?m # rs) = Inr (pre @ absorb cid ?m rs)"
      proof (rule Cons.IH)
        show "\<forall>x\<in>set (pre @ ?m # rs). length (split 124 x) = n"
          using Cons.prems(1) lm by simp
        show "cid < n" by (rule Cons.prems(2))
        show "\<forall>x \<in> set (tl (pre @ [?m])). \<not> itemized cid x" by (rule clean')
        show "\<not> ends_with_two_itemized cid (pre @ ?m # rs)"
        proof
          assume "ends_with_two_itemized cid (pre @ ?m # rs)"
          then obtain xs a b where eq: "pre @ ?m # rs = xs @ [a, b]" and ne: "xs \<noteq> []"
            and ab: "itemized cid a" "itemized cid b"
            by (auto simp: ends_with_two_itemized_iff)
          show False
          proof (cases rs rule: rev_cases)
            case Nil
            with eq have "pre @ [?m] = (xs @ [a]) @ [b]" by simp
            then have "pre = xs @ [a]" "?m = b" by simp_all
            with ne clean' ab(2) show False by (cases xs) simp_all
          next
            case (snoc ys y)
            show False
            proof (cases ys rule: rev_cases)
              case Nil
              with snoc more show False by simp
            next
              case (snoc zs z)
              with \<open>rs = ys @ [y]\<close> have rs: "rs = zs @ [z, y]" by simp
              with eq have "(pre @ ?m # zs) @ [z, y] = xs @ [a, b]" by simp
              then have "z = a" "y = b" by simp_all
              with ab rs have "\<exists>xs a b. ?rows = xs @ [a, b] \<and> xs \<noteq> [] \<and> itemized cid a \<and> itemized cid b"
                by (intro exI [of _ "pre @ p # r # zs"] exI [of _ z] exI [of _ y]) simp
              then have "ends_with_two_itemized cid ?rows" by (simp only: ends_with_two_itemized_iff)
              with Cons.prems(4) show False by simp
            qed
          qed
        qed
      qed
      moreover from step more have "merge_rows cid ?rows = merge_rows cid (pre @ ?m # rs)" by simp
      ultimately show ?thesis using True by simp
    qed
  qed
qed

lemma absorb_length:
  "length (absorb cid p rs) + length (filter (itemized cid) rs) = Suc (length rs)"
  by (induction rs arbitrary: p) simp_all

lemma absorb_head:
  assumes "\<forall>x \<in> set (p # rs). length (split 124 x) = n" and "cid < n"
  shows "absorb cid p rs \<noteq> [] \<and> (itemized cid (hd (absorb cid p rs)) \<longleftrightarrow> itemized cid p)
         \<and> (\<forall>x \<in> set (absorb cid p rs). length (split 124 x) = n)"
  using assms
proof (induction rs arbitrary: p)
  case Nil
  then show ?case by simp
next
  case (Cons r rs)
  have lp: "length (split 124 p) = n" and lr: "length (split 124 r) = n"
    using Cons.prems(1) by simp_all
  show ?case
  proof (cases "itemized cid r")
    case True
    have "length (split 124 (merged_row cid p r)) = n"
      using lp lr Cons.prems(2) by (intro merged_row_length) simp_all
    with Cons.prems have "\<forall>x \<in> set (merged_row cid p r # rs). length (split 124 x) = n" by simp
    from Cons.IH [OF this Cons.prems(2)] merged_row_itemized [OF lp lr Cons.prems(2)] True
    show ?thesis by simp
  next
    case False
    from Cons.prems have "\<forall>x \<in> set (r # rs). length (split 124 x) = n" by simp
    from Cons.IH [OF this Cons.prems(2)] False lp show ?thesis by simp
  qed
qed

lemma absorb_tail_clean:
  assumes "\<forall>x \<in> set (p # rs). length (split 124 x) = n" and "cid < n"
  shows "\<forall>x \<in> set (tl (absorb cid p rs)). \<not> itemized cid x"
  using assms
proof (induction rs arbitrary: p)
  case Nil
  then show ?case by simp
next
  case (Cons r rs)
  have lp: "length (split 124 p) = n" and lr: "length (split 124 r) = n"
    using Cons.prems(1) by simp_all
  show ?case
  proof (cases "itemized cid r")
    case True
    have "length (split 124 (merged_row cid p r)) = n"
      using lp lr Cons.prems(2) by (intro merged_row_length) simp_all
    with Cons.prems have "\<forall>x \<in> set (merged_row cid p r # rs). length (split 124 x) = n" by simp
    from Cons.IH [OF this Cons.prems(2)] True show ?thesis by simp
  next
    case False
    from Cons.prems have all: "\<forall>x \<in> set (r # rs). length (split 124 x) = n" by simp
    from absorb_head [OF all Cons.prems(2)] False
    have ne: "absorb cid r rs \<noteq> []" and hd: "\<not> itemized cid (hd (absorb cid r rs))" by simp_all
    from Cons.IH [OF all Cons.prems(2)]
    have tl: "\<forall>x \<in> set (tl (absorb cid r rs)). \<not> itemized cid x" .
    have "\<forall>x \<in> set (absorb cid r rs). \<not> itemized cid x"
    proof
      fix x assume "x \<in> set (absorb cid r rs)"
      with ne have "x = hd (absorb cid r rs) \<or> x \<in> set (tl (absorb cid r rs))"
        by (cases "absorb cid r rs") auto
      with hd tl show "\<not> itemized cid x" by blast
    qed
    with False show ?thesis by simp
  qed
qed

text \<open>
  C7 (amended). For every block whose rows have the same number of columns, more than
  \<open>column_id\<close>, and which does not end with two rows of empty identifier in a block of
  three or more rows: every row with an empty identifier other than the first row of the
  block is merged into the row before it, each of its other columns appended to the
  predecessor's column of the same index after the break marker; no row with an empty
  identifier remains after the first row; and the number of rows is the original number
  less the number of rows with an empty identifier after the first row.
\<close>

theorem itemized_rows_merged:
  assumes "table_rows \<noteq> []"
    and "\<forall>row \<in> set table_rows. length (split 124 row) = n" and "column_id < n"
    and "\<not> ends_with_two_itemized column_id table_rows"
  shows "merge_rows column_id table_rows = Inr (spec_merge column_id table_rows)
       \<and> (\<forall>row \<in> set (tl (spec_merge column_id table_rows)). \<not> itemized column_id row)
       \<and> length (spec_merge column_id table_rows)
           = length table_rows - length (filter (itemized column_id) (tl table_rows))"
proof -
  from assms(1) obtain p rs where rows: "table_rows = p # rs" by (cases table_rows) auto
  have "merge_rows column_id ([] @ p # rs) = Inr ([] @ absorb column_id p rs)"
    using assms(2-4) unfolding rows by (intro merge_rows_absorb) simp_all
  then have a: "merge_rows column_id table_rows = Inr (spec_merge column_id table_rows)"
    by (simp add: rows spec_merge_def)
  have b: "\<forall>row \<in> set (tl (spec_merge column_id table_rows)). \<not> itemized column_id row"
    using absorb_tail_clean [of p rs n column_id] assms(2,3) by (simp add: rows spec_merge_def)
  have c: "length (spec_merge column_id table_rows)
           = length table_rows - length (filter (itemized column_id) (tl table_rows))"
    using absorb_length [of column_id p rs] by (simp add: rows spec_merge_def)
  from a b c show ?thesis by blast
qed

lemmas merge_eval = table_eval merged_row_def spec_merge_def ends_with_two_itemized_def

text \<open>
  A block of three rows, the second with an empty identifier: it is merged into the
  first, and two rows remain.
\<close>

theorem itemized_rows_merged_witness:
  "merge_rows 0 [py ''DP-2 | items:'', py ''| - one'', py ''DP-3 | none'']
     = Inr [py ''DP-2| items: <br>  - one'', py ''DP-3 | none'']
   \<and> length (spec_merge 0 [py ''DP-2 | items:'', py ''| - one'', py ''DP-3 | none'']) = 3 - 1"
proof -
  let ?rows = "[py ''DP-2 | items:'', py ''| - one'', py ''DP-3 | none'']"
  have ne: "?rows \<noteq> []" by simp
  have cols: "\<forall>row \<in> set ?rows. length (split 124 row) = 2" by (simp add: py_def)
  have cid: "(0::nat) < 2" by simp
  have i0: "\<not> itemized 0 (py ''DP-2 | items:'')" by (simp add: merge_eval)
  have i1: "itemized 0 (py ''| - one'')" by (simp add: merge_eval)
  have i2: "\<not> itemized 0 (py ''DP-3 | none'')" by (simp add: merge_eval)
  have ns: "\<not> ends_with_two_itemized 0 ?rows"
    using i2 by (simp add: ends_with_two_itemized_def)
  have m: "merged_row 0 (py ''DP-2 | items:'') (py ''| - one'') = py ''DP-2| items: <br>  - one''"
    by (simp add: merge_eval)
  have sm: "spec_merge 0 ?rows = [py ''DP-2| items: <br>  - one'', py ''DP-3 | none'']"
    using i1 i2 m by (simp add: spec_merge_def)
  have f: "length (filter (itemized 0) (tl ?rows)) = 1"
    using i1 i2 by simp
  from itemized_rows_merged [OF ne cols cid ns] sm f show ?thesis by simp
qed

text \<open>
  The first row of a block has no row before it and is never merged: here the block
  has one row with an empty identifier and still two rows after the loop.
\<close>

theorem first_row_itemized_counterexample:
  "itemized 0 (py ''| x'')
   \<and> length (filter (itemized 0) [py ''| x'', py ''a | b'']) = 1
   \<and> merge_rows 0 [py ''| x'', py ''a | b''] = Inr [py ''| x'', py ''a | b'']"
  by (simp add: merge_eval)

text \<open>
  The example of the docstring of \<open>md_table_to_pydantic_list\<close>, a row followed by two
  itemized rows: the loop stops after the first merge and leaves the last row, with its
  empty identifier, as a row of its own.
\<close>

lemma two_trailing_itemized_rows:
  "ends_with_two_itemized 0 [py ''DP-2 | items:'', py ''| - one'', py ''| - two'']
   \<and> merge_rows 0 [py ''DP-2 | items:'', py ''| - one'', py ''| - two'']
       = Inr [py ''DP-2| items: <br>  - one'', py ''| - two'']
   \<and> spec_merge 0 [py ''DP-2 | items:'', py ''| - one'', py ''| - two'']
       = [py ''DP-2| items: <br>  - one <br>  - two'']"
  by (simp add: merge_eval)

end
